theory Spec2Isabelle
  imports Complex_Main
begin

section \<open>JavaScript numbers\<close>

text \<open>
  The recognisers compute on JavaScript numbers. A number is modelled as a finite real
  or one of the three IEEE special values, so that a division by zero, an
  \<open>Infinity - Infinity\<close> and a comparison with \<open>NaN\<close> behave as they do in the
  program. Arithmetic on finite values is exact: rounding, overflow and underflow of
  the 64-bit format are not part of the model, and the two zeros are one value (every
  zero divisor of the code is a difference \<open>v - v\<close>, a square root or a length,
  that is \<open>+0\<close>).
\<close>

datatype jsnum = isFin: Fin (val: real) | PInf | NInf | NaN

instantiation jsnum :: "{zero, one, plus, uminus, minus, times, inverse, abs, ord}"
begin

definition zero_jsnum :: jsnum where "zero_jsnum = Fin 0"

definition one_jsnum :: jsnum where "one_jsnum = Fin 1"

fun plus_jsnum :: "jsnum \<Rightarrow> jsnum \<Rightarrow> jsnum" where
  "plus_jsnum NaN _ = NaN"
| "plus_jsnum _ NaN = NaN"
| "plus_jsnum (Fin a) (Fin b) = Fin (a + b)"
| "plus_jsnum PInf NInf = NaN"
| "plus_jsnum NInf PInf = NaN"
| "plus_jsnum PInf _ = PInf"
| "plus_jsnum _ PInf = PInf"
| "plus_jsnum NInf _ = NInf"
| "plus_jsnum _ NInf = NInf"

fun uminus_jsnum :: "jsnum \<Rightarrow> jsnum" where
  "uminus_jsnum (Fin a) = Fin (- a)"
| "uminus_jsnum PInf = NInf"
| "uminus_jsnum NInf = PInf"
| "uminus_jsnum NaN = NaN"

definition minus_jsnum :: "jsnum \<Rightarrow> jsnum \<Rightarrow> jsnum" where
  "minus_jsnum a b = a + (- b)"

fun times_jsnum :: "jsnum \<Rightarrow> jsnum \<Rightarrow> jsnum" where
  "times_jsnum NaN _ = NaN"
| "times_jsnum _ NaN = NaN"
| "times_jsnum (Fin a) (Fin b) = Fin (a * b)"
| "times_jsnum (Fin a) PInf = (if a = 0 then NaN else if 0 < a then PInf else NInf)"
| "times_jsnum (Fin a) NInf = (if a = 0 then NaN else if 0 < a then NInf else PInf)"
| "times_jsnum PInf (Fin b) = (if b = 0 then NaN else if 0 < b then PInf else NInf)"
| "times_jsnum NInf (Fin b) = (if b = 0 then NaN else if 0 < b then NInf else PInf)"
| "times_jsnum PInf PInf = PInf"
| "times_jsnum PInf NInf = NInf"
| "times_jsnum NInf PInf = NInf"
| "times_jsnum NInf NInf = PInf"

fun divide_jsnum :: "jsnum \<Rightarrow> jsnum \<Rightarrow> jsnum" where
  "divide_jsnum NaN _ = NaN"
| "divide_jsnum _ NaN = NaN"
| "divide_jsnum (Fin a) (Fin b) =
     (if b = 0 then (if a = 0 then NaN else if 0 < a then PInf else NInf)
      else Fin (a / b))"
| "divide_jsnum (Fin a) _ = Fin 0"
| "divide_jsnum PInf (Fin b) = (if 0 \<le> b then PInf else NInf)"
| "divide_jsnum NInf (Fin b) = (if 0 \<le> b then NInf else PInf)"
| "divide_jsnum _ _ = NaN"

definition inverse_jsnum :: "jsnum \<Rightarrow> jsnum" where
  "inverse_jsnum a = divide (Fin 1) a"

fun abs_jsnum :: "jsnum \<Rightarrow> jsnum" where
  "abs_jsnum (Fin a) = Fin \<bar>a\<bar>"
| "abs_jsnum PInf = PInf"
| "abs_jsnum NInf = PInf"
| "abs_jsnum NaN = NaN"

fun less_jsnum :: "jsnum \<Rightarrow> jsnum \<Rightarrow> bool" where
  "less_jsnum NaN _ = False"
| "less_jsnum _ NaN = False"
| "less_jsnum (Fin a) (Fin b) = (a < b)"
| "less_jsnum _ NInf = False"
| "less_jsnum PInf _ = False"
| "less_jsnum NInf _ = True"
| "less_jsnum _ PInf = True"

fun less_eq_jsnum :: "jsnum \<Rightarrow> jsnum \<Rightarrow> bool" where
  "less_eq_jsnum NaN _ = False"
| "less_eq_jsnum _ NaN = False"
| "less_eq_jsnum (Fin a) (Fin b) = (a \<le> b)"
| "less_eq_jsnum NInf _ = True"
| "less_eq_jsnum _ PInf = True"
| "less_eq_jsnum _ NInf = False"
| "less_eq_jsnum PInf _ = False"

instance ..

end

text \<open>
  The functions of \<open>Math\<close> the recognisers call. \<open>Math.min\<close> and \<open>Math.max\<close>
  return \<open>NaN\<close> when an argument is \<open>NaN\<close>; \<open>Math.atan2\<close> is given its values
  at the infinities, and at a zero argument its value for \<open>+0\<close>.
\<close>

fun Math_sqrt :: "jsnum \<Rightarrow> jsnum" where
  "Math_sqrt (Fin a) = (if a < 0 then NaN else Fin (sqrt a))"
| "Math_sqrt PInf = PInf"
| "Math_sqrt NInf = NaN"
| "Math_sqrt NaN = NaN"

fun Math_min :: "jsnum \<Rightarrow> jsnum \<Rightarrow> jsnum" where
  "Math_min NaN _ = NaN"
| "Math_min _ NaN = NaN"
| "Math_min a b = (if a < b then a else b)"

fun Math_max :: "jsnum \<Rightarrow> jsnum \<Rightarrow> jsnum" where
  "Math_max NaN _ = NaN"
| "Math_max _ NaN = NaN"
| "Math_max a b = (if a < b then b else a)"

fun Math_cos :: "jsnum \<Rightarrow> jsnum" where
  "Math_cos (Fin a) = Fin (cos a)"
| "Math_cos _ = NaN"

fun Math_sin :: "jsnum \<Rightarrow> jsnum" where
  "Math_sin (Fin a) = Fin (sin a)"
| "Math_sin _ = NaN"

fun Math_atan2 :: "jsnum \<Rightarrow> jsnum \<Rightarrow> jsnum" where
  "Math_atan2 NaN _ = NaN"
| "Math_atan2 _ NaN = NaN"
| "Math_atan2 (Fin b) (Fin a) =
     (if 0 < a then Fin (arctan (b / a))
      else if a < 0 then (if 0 \<le> b then Fin (arctan (b / a) + pi) else Fin (arctan (b / a) - pi))
      else if 0 < b then Fin (pi / 2)
      else if b < 0 then Fin (- pi / 2)
      else Fin 0)"
| "Math_atan2 (Fin b) PInf = Fin 0"
| "Math_atan2 (Fin b) NInf = (if 0 \<le> b then Fin pi else Fin (- pi))"
| "Math_atan2 PInf (Fin a) = Fin (pi / 2)"
| "Math_atan2 NInf (Fin a) = Fin (- pi / 2)"
| "Math_atan2 PInf PInf = Fin (pi / 4)"
| "Math_atan2 PInf NInf = Fin (3 * pi / 4)"
| "Math_atan2 NInf PInf = Fin (- pi / 4)"
| "Math_atan2 NInf NInf = Fin (- 3 * pi / 4)"

section \<open>Points\<close>

text \<open>
  The angle-search recogniser (\<open>onedollar.js\<close>) works on objects \<open>{x, y}\<close>; the
  cloud recogniser (\<open>qdollar.js\<close>) on objects \<open>{x, y, id}\<close>, where \<open>id\<close> is the
  stroke the point belongs to (\<open>None\<close> is \<open>undefined\<close>: a caller's record without
  the field).
\<close>

record point =
  x :: jsnum
  y :: jsnum

record qpoint = point +
  id' :: "int option"

text \<open>
  A throw of the program is a value. The only throw of the two classes is the
  \<open>TypeError\<close> of reading a property of \<open>undefined\<close>.
\<close>

datatype error = TypeError

section \<open>Geometry utilities\<close>

text \<open>\<open>_distance\<close>, \<open>_sqrEuclideanDistance\<close> and \<open>_centroid\<close> have the same body in both classes.\<close>

definition distance :: "'a point_scheme \<Rightarrow> 'b point_scheme \<Rightarrow> jsnum" where
  "distance p1 p2 =
     (let dx = x p1 - x p2; dy = y p1 - y p2 in Math_sqrt (dx * dx + dy * dy))"

definition sqrEuclideanDistance :: "'a point_scheme \<Rightarrow> 'b point_scheme \<Rightarrow> jsnum" where
  "sqrEuclideanDistance p1 p2 =
     (let dx = x p1 - x p2; dy = y p1 - y p2 in dx * dx + dy * dy)"

definition centroid :: "'a point_scheme list \<Rightarrow> point" where
  "centroid points =
     (let (sx, sy) = foldl (\<lambda>(sx, sy) p. (sx + x p, sy + y p)) (Fin 0, Fin 0) points
      in \<lparr>x = sx / Fin (real (length points)), y = sy / Fin (real (length points))\<rparr>)"

section \<open>Normalisation: translate\<close>

definition OneDollar_translateTo :: "point list \<Rightarrow> point \<Rightarrow> point list" where
  "OneDollar_translateTo points pt =
     (let c = centroid points
      in map (\<lambda>p. \<lparr>x = x p + x pt - x c, y = y p + y pt - y c\<rparr>) points)"

definition QDollar_translateTo :: "qpoint list \<Rightarrow> point \<Rightarrow> qpoint list" where
  "QDollar_translateTo points pt =
     (let c = centroid points
      in map (\<lambda>p. \<lparr>x = x p + x pt - x c, y = y p + y pt - y c, id' = id' p\<rparr>) points)"

definition finite_point :: "'a point_scheme \<Rightarrow> bool" where
  "finite_point p = (isFin (x p) \<and> isFin (y p))"

definition finite_points :: "'a point_scheme list \<Rightarrow> bool" where
  "finite_points points = list_all finite_point points"

section \<open>The angle-search recogniser (onedollar.js)\<close>

subsection \<open>Constants of the constructor\<close>

definition NumPoints :: nat where
  "NumPoints = 64"

definition SquareSize :: jsnum where
  "SquareSize = Fin 250"

definition Origin :: point where
  "Origin = \<lparr>x = Fin 0, y = Fin 0\<rparr>"

definition Diagonal :: jsnum where
  "Diagonal = Math_sqrt (SquareSize * SquareSize + SquareSize * SquareSize)"

definition HalfDiagonal :: jsnum where
  "HalfDiagonal = Fin 0.5 * Diagonal"

definition AngleRange :: jsnum where
  "AngleRange = Fin 45"

definition AnglePrecision :: jsnum where
  "AnglePrecision = Fin 2"

definition Phi :: jsnum where
  "Phi = Fin 0.5 * (Fin (- 1) + Math_sqrt (Fin 5))"

subsection \<open>Templates and results\<close>

record 'p template =
  Name :: string
  Points :: "'p list"

record od_template = "point template" +
  Vector :: "jsnum list"

record qd_template = "qpoint template" +
  LUT :: "unit list"

text \<open>
  What \<open>check\<close> returns, without the elapsed time \<open>ms\<close> (a difference of two readings
  of the clock, which is outside the model).
\<close>

record recognition =
  name :: string
  score :: jsnum

subsection \<open>Resampling\<close>

definition OneDollar_pathLength :: "point list \<Rightarrow> jsnum" where
  "OneDollar_pathLength points =
     foldl (\<lambda>d i. d + distance (points ! (i - 1)) (points ! i)) (Fin 0) [1..<length points]"

text \<open>
  The loop of \<open>_resample\<close>. It walks the array \<open>points\<close> by the index \<open>i\<close> and
  splices every synthesised point \<open>q\<close> into that array at \<open>i\<close>, so the array grows
  while it is walked; the loop returns \<open>newPoints\<close> and the array as it left it.
  Nothing bounds the number of splices, so not returning is the value \<open>None\<close>.
\<close>

partial_function (option) OneDollar_resample_loop ::
  "jsnum \<Rightarrow> jsnum \<Rightarrow> point list \<Rightarrow> nat \<Rightarrow> point list \<Rightarrow> (point list \<times> point list) option" where
  "OneDollar_resample_loop I D points i newPoints =
     (if i < length points then
        (let d = distance (points ! (i - 1)) (points ! i) in
         if I \<le> D + d then
           (let qx = x (points ! (i - 1)) + ((I - D) / d) * (x (points ! i) - x (points ! (i - 1)));
                qy = y (points ! (i - 1)) + ((I - D) / d) * (y (points ! i) - y (points ! (i - 1)));
                q = \<lparr>x = qx, y = qy\<rparr>
            in OneDollar_resample_loop I (Fin 0) (take i points @ q # drop i points) (i + 1)
                 (newPoints @ [q]))
         else OneDollar_resample_loop I (D + d) points (i + 1) newPoints)
      else Some (newPoints, points))"

text \<open>
  \<open>_resample(points, n)\<close>. On an empty array the program builds \<open>[undefined]\<close> and
  the next stage throws on reading \<open>.x\<close> of its element; the model raises that
  \<open>TypeError\<close> here, where the undefined element is made. The second component is
  the array \<open>points\<close> after the call.
\<close>

definition OneDollar_resample ::
  "point list \<Rightarrow> nat \<Rightarrow> ((error + point list) \<times> point list) option" where
  "OneDollar_resample points n =
     (case points of
        [] \<Rightarrow> Some (Inl TypeError, points)
      | p0 # _ \<Rightarrow>
          (let I = OneDollar_pathLength points / Fin (real n - 1) in
           case OneDollar_resample_loop I (Fin 0) points 1 [p0] of
             None \<Rightarrow> None
           | Some (newPoints, points') \<Rightarrow>
               Some (Inr (if int (length newPoints) = int n - 1
                          then newPoints @ [\<lparr>x = x (last points'), y = y (last points')\<rparr>]
                          else newPoints),
                     points')))"

subsection \<open>Rotation, scale\<close>

definition indicativeAngle :: "point list \<Rightarrow> error + jsnum" where
  "indicativeAngle points =
     (let c = centroid points in
      case points of
        [] \<Rightarrow> Inl TypeError
      | p0 # _ \<Rightarrow> Inr (Math_atan2 (y c - y p0) (x c - x p0)))"

definition rotateBy :: "point list \<Rightarrow> jsnum \<Rightarrow> point list" where
  "rotateBy points radians =
     (let c = centroid points; cos = Math_cos radians; sin = Math_sin radians
      in map (\<lambda>p. \<lparr>x = (x p - x c) * cos - (y p - y c) * sin + x c,
                    y = (x p - x c) * sin + (y p - y c) * cos + y c\<rparr>) points)"

record rect = point +
  width :: jsnum
  height :: jsnum

definition boundingBox :: "'a point_scheme list \<Rightarrow> rect" where
  "boundingBox points =
     (let (minX, maxX, minY, maxY) =
        foldl (\<lambda>(minX, maxX, minY, maxY) p.
                 (Math_min minX (x p), Math_max maxX (x p), Math_min minY (y p), Math_max maxY (y p)))
          (PInf, NInf, PInf, NInf) points
      in \<lparr>x = minX, y = minY, width = maxX - minX, height = maxY - minY\<rparr>)"

definition OneDollar_scaleTo :: "point list \<Rightarrow> jsnum \<Rightarrow> point list" where
  "OneDollar_scaleTo points size' =
     (let B = boundingBox points
      in map (\<lambda>p. \<lparr>x = x p * (size' / width B), y = y p * (size' / height B)\<rparr>) points)"

definition vectorize :: "point list \<Rightarrow> jsnum list" where
  "vectorize points =
     (let (sum_acc, vector) =
        foldl (\<lambda>(sum_acc, vector) p. (sum_acc + (x p * x p + y p * y p), vector @ [x p, y p]))
          (Fin 0, []) points;
          magnitude = Math_sqrt sum_acc
      in map (\<lambda>v. v / magnitude) vector)"

subsection \<open>The search for the best angle\<close>

text \<open>
  \<open>_pathDistance\<close> reads \<open>pts2[i]\<close> for every index of \<open>pts1\<close>: it throws at the
  first index past the end of \<open>pts2\<close>, that is, when \<open>pts2\<close> is the shorter array.
\<close>

definition pathDistance :: "point list \<Rightarrow> point list \<Rightarrow> error + jsnum" where
  "pathDistance pts1 pts2 =
     (if length pts2 < length pts1 then Inl TypeError
      else Inr (foldl (\<lambda>d i. d + distance (pts1 ! i) (pts2 ! i)) (Fin 0) [0..<length pts1]
                / Fin (real (length pts1))))"

definition distanceAtAngle :: "point list \<Rightarrow> od_template \<Rightarrow> jsnum \<Rightarrow> error + jsnum" where
  "distanceAtAngle points T radians = pathDistance (rotateBy points radians) (Points T)"

text \<open>
  The \<open>while\<close> loop of \<open>_distanceAtBestAngle\<close>, with the objective as the parameter
  \<open>F\<close>. The last argument counts the evaluations of the objective; the loop returns
  the bracket, the two retained values and that count.
\<close>

partial_function (option) distanceAtBestAngle_loop ::
  "(jsnum \<Rightarrow> error + jsnum) \<Rightarrow> jsnum \<Rightarrow> jsnum \<Rightarrow> jsnum \<Rightarrow> jsnum \<Rightarrow> jsnum \<Rightarrow> jsnum \<Rightarrow> jsnum \<Rightarrow> nat
     \<Rightarrow> (error + jsnum \<times> jsnum \<times> jsnum \<times> jsnum \<times> nat) option" where
  "distanceAtBestAngle_loop F threshold a b x1 f1 x2 f2 evals =
     (if threshold < \<bar>b - a\<bar> then
        (if f1 < f2 then
           (let b' = x2; x2' = x1; f2' = f1; x1' = Phi * a + (Fin 1 - Phi) * b' in
            case F x1' of
              Inl e \<Rightarrow> Some (Inl e)
            | Inr f1' \<Rightarrow> distanceAtBestAngle_loop F threshold a b' x1' f1' x2' f2' (evals + 1))
         else
           (let a' = x1; x1' = x2; f1' = f2; x2' = (Fin 1 - Phi) * a' + Phi * b in
            case F x2' of
              Inl e \<Rightarrow> Some (Inl e)
            | Inr f2' \<Rightarrow> distanceAtBestAngle_loop F threshold a' b x1' f1' x2' f2' (evals + 1)))
      else Some (Inr (a, b, f1, f2, evals)))"

definition distanceAtBestAngle_search ::
  "(jsnum \<Rightarrow> error + jsnum) \<Rightarrow> jsnum \<Rightarrow> jsnum \<Rightarrow> jsnum
     \<Rightarrow> (error + jsnum \<times> jsnum \<times> jsnum \<times> jsnum \<times> nat) option" where
  "distanceAtBestAngle_search F a b threshold =
     (let x1 = Phi * a + (Fin 1 - Phi) * b in
      case F x1 of
        Inl e \<Rightarrow> Some (Inl e)
      | Inr f1 \<Rightarrow>
          (let x2 = (Fin 1 - Phi) * a + Phi * b in
           case F x2 of
             Inl e \<Rightarrow> Some (Inl e)
           | Inr f2 \<Rightarrow> distanceAtBestAngle_loop F threshold a b x1 f1 x2 f2 2))"

definition distanceAtBestAngle ::
  "point list \<Rightarrow> od_template \<Rightarrow> jsnum \<Rightarrow> jsnum \<Rightarrow> jsnum \<Rightarrow> (error + jsnum) option" where
  "distanceAtBestAngle points T a b threshold =
     (case distanceAtBestAngle_search (distanceAtAngle points T) a b threshold of
        None \<Rightarrow> None
      | Some (Inl e) \<Rightarrow> Some (Inl e)
      | Some (Inr (a', b', f1, f2, evals)) \<Rightarrow> Some (Inr (Math_min f1 f2)))"

subsection \<open>check and add\<close>

text \<open>
  The five lines \<open>check\<close> and \<open>add\<close> share: resample, rotate by minus the indicative
  angle, scale, translate. The second component is the array \<open>_resample\<close> was given,
  as the call leaves it.
\<close>

definition OneDollar_normalize ::
  "point list \<Rightarrow> ((error + point list) \<times> point list) option" where
  "OneDollar_normalize points =
     (case OneDollar_resample points NumPoints of
        None \<Rightarrow> None
      | Some (Inl e, points') \<Rightarrow> Some (Inl e, points')
      | Some (Inr processed, points') \<Rightarrow>
          (case indicativeAngle processed of
             Inl e \<Rightarrow> Some (Inl e, points')
           | Inr radians \<Rightarrow>
               Some (Inr (OneDollar_translateTo
                            (OneDollar_scaleTo (rotateBy processed (- radians)) SquareSize) Origin),
                     points')))"

text \<open>The loop of \<open>check\<close> over the templates: \<open>i\<close> is the index of the first template of the list.\<close>

fun OneDollar_check_loop ::
  "point list \<Rightarrow> od_template list \<Rightarrow> nat \<Rightarrow> jsnum \<Rightarrow> nat \<Rightarrow> (error + jsnum \<times> nat) option" where
  "OneDollar_check_loop points [] i b t = Some (Inr (b, t))"
| "OneDollar_check_loop points (T # Ts) i b t =
     (case distanceAtBestAngle points T (- AngleRange) AngleRange AnglePrecision of
        None \<Rightarrow> None
      | Some (Inl e) \<Rightarrow> Some (Inl e)
      | Some (Inr d) \<Rightarrow>
          (if d < b then OneDollar_check_loop points Ts (i + 1) d i
           else OneDollar_check_loop points Ts (i + 1) b t))"

text \<open>
  \<open>check\<close> from its second statement on, as a function of the array
  \<open>processedPoints\<close> names after \<open>_convertPoints\<close>. \<open>this.Templates[t].Name\<close> throws
  when \<open>this.Templates[t]\<close> is \<open>undefined\<close>.
\<close>

definition OneDollar_check_points ::
  "od_template list \<Rightarrow> point list \<Rightarrow> ((error + recognition) \<times> point list) option" where
  "OneDollar_check_points Templates points =
     (case OneDollar_normalize points of
        None \<Rightarrow> None
      | Some (Inl e, points') \<Rightarrow> Some (Inl e, points')
      | Some (Inr processedPoints, points') \<Rightarrow>
          (case OneDollar_check_loop processedPoints Templates 0 PInf 0 of
             None \<Rightarrow> None
           | Some (Inl e) \<Rightarrow> Some (Inl e, points')
           | Some (Inr (b, t)) \<Rightarrow>
               (let score = Fin 1 - b / HalfDiagonal in
                if t < length Templates
                then Some (Inr \<lparr>name = Name (Templates ! t), score = Math_max score (Fin 0)\<rparr>,
                           points')
                else Some (Inl TypeError, points'))))"

definition OneDollar_add_points ::
  "od_template list \<Rightarrow> string \<Rightarrow> point list
     \<Rightarrow> ((error + od_template list) \<times> point list) option" where
  "OneDollar_add_points Templates name' points =
     (case OneDollar_normalize points of
        None \<Rightarrow> None
      | Some (Inl e, points') \<Rightarrow> Some (Inl e, points')
      | Some (Inr processed, points') \<Rightarrow>
          Some (Inr (Templates @
                  [\<lparr>Name = name', Points = processed, Vector = vectorize processed\<rparr>]),
                points'))"

section \<open>The cloud recogniser (qdollar.js)\<close>

text \<open>\<open>NumPoints\<close> and \<open>Origin\<close> have the values of the angle-search recogniser.\<close>

subsection \<open>Resampling, scale\<close>

definition QDollar_pathLength :: "qpoint list \<Rightarrow> jsnum" where
  "QDollar_pathLength points =
     foldl (\<lambda>d i. if id' (points ! i) = id' (points ! (i - 1))
                   then d + distance (points ! (i - 1)) (points ! i) else d)
       (Fin 0) [1..<length points]"

partial_function (option) QDollar_resample_loop ::
  "jsnum \<Rightarrow> jsnum \<Rightarrow> qpoint list \<Rightarrow> nat \<Rightarrow> qpoint list \<Rightarrow> (qpoint list \<times> qpoint list) option" where
  "QDollar_resample_loop I D points i newPoints =
     (if i < length points then
        (if id' (points ! i) = id' (points ! (i - 1)) then
           (let d = distance (points ! (i - 1)) (points ! i) in
            if I \<le> D + d then
              (let qx = x (points ! (i - 1)) + ((I - D) / d) * (x (points ! i) - x (points ! (i - 1)));
                   qy = y (points ! (i - 1)) + ((I - D) / d) * (y (points ! i) - y (points ! (i - 1)));
                   q = \<lparr>x = qx, y = qy, id' = id' (points ! i)\<rparr>
               in QDollar_resample_loop I (Fin 0) (take i points @ q # drop i points) (i + 1)
                    (newPoints @ [q]))
            else QDollar_resample_loop I (D + d) points (i + 1) newPoints)
         else QDollar_resample_loop I D points (i + 1) newPoints)
      else Some (newPoints, points))"

definition QDollar_resample ::
  "qpoint list \<Rightarrow> nat \<Rightarrow> ((error + qpoint list) \<times> qpoint list) option" where
  "QDollar_resample points n =
     (case points of
        [] \<Rightarrow> Some (Inl TypeError, points)
      | p0 # _ \<Rightarrow>
          (let I = QDollar_pathLength points / Fin (real n - 1) in
           case QDollar_resample_loop I (Fin 0) points 1 [p0] of
             None \<Rightarrow> None
           | Some (newPoints, points') \<Rightarrow>
               Some (Inr (if int (length newPoints) = int n - 1
                          then newPoints @
                            [\<lparr>x = x (last points'), y = y (last points'), id' = id' (last points')\<rparr>]
                          else newPoints),
                     points')))"

definition QDollar_scale :: "qpoint list \<Rightarrow> qpoint list" where
  "QDollar_scale points =
     (let (minX, maxX, minY, maxY) =
        foldl (\<lambda>(minX, maxX, minY, maxY) p.
                 (Math_min minX (x p), Math_max maxX (x p), Math_min minY (y p), Math_max maxY (y p)))
          (PInf, NInf, PInf, NInf) points;
          size' = Math_max (maxX - minX) (maxY - minY)
      in map (\<lambda>p. \<lparr>x = (x p - minX) / size', y = (y p - minY) / size', id' = id' p\<rparr>) points)"

subsection \<open>The cloud distance\<close>

text \<open>
  The inner loop of \<open>_cloudDistance\<close>: the nearest template point not yet matched.
  \<open>index\<close> is \<open>None\<close> where the program holds \<open>-1\<close>.
\<close>

definition cloudDistance_inner ::
  "qpoint \<Rightarrow> qpoint list \<Rightarrow> nat \<Rightarrow> bool list \<Rightarrow> nat option \<times> jsnum" where
  "cloudDistance_inner p pts2 n matched =
     foldl (\<lambda>(index, min) j.
              if \<not> matched ! j then
                (let d = sqrEuclideanDistance p (pts2 ! j) in
                 if d < min then (Some j, d) else (index, min))
              else (index, min))
       (None, PInf) [0..<n]"

text \<open>The outer loop, over the points of the candidate that are left, with its early return.\<close>

fun cloudDistance_loop ::
  "qpoint list \<Rightarrow> qpoint list \<Rightarrow> nat \<Rightarrow> jsnum \<Rightarrow> bool list \<Rightarrow> jsnum \<Rightarrow> jsnum" where
  "cloudDistance_loop [] pts2 n minSoFar matched sum_acc = sum_acc"
| "cloudDistance_loop (p # ps) pts2 n minSoFar matched sum_acc =
     (let (index, min) = cloudDistance_inner p pts2 n matched;
          (matched', sum_acc') =
            (case index of
               None \<Rightarrow> (matched, sum_acc)
             | Some j \<Rightarrow> (matched[j := True], sum_acc + Math_sqrt min))
      in if minSoFar \<le> sum_acc' then sum_acc'
         else cloudDistance_loop ps pts2 n minSoFar matched' sum_acc')"

text \<open>
  \<open>_cloudDistance\<close>. Its first inner loop reads \<open>pts2[j]\<close> for every index of
  \<open>pts1\<close>, none being matched yet: it throws when \<open>pts2\<close> is the shorter array, and
  no later read can be out of range.
\<close>

definition cloudDistance :: "qpoint list \<Rightarrow> qpoint list \<Rightarrow> nat \<Rightarrow> jsnum \<Rightarrow> error + jsnum" where
  "cloudDistance pts1 pts2 start minSoFar =
     (let n = length pts1 in
      if length pts2 < n then Inl TypeError
      else Inr (cloudDistance_loop pts1 pts2 n minSoFar (replicate n False) (Fin 0)))"

definition cloudMatch :: "qpoint list \<Rightarrow> qd_template \<Rightarrow> jsnum \<Rightarrow> error + jsnum" where
  "cloudMatch points template' minSoFar = cloudDistance points (Points template') 0 minSoFar"

subsection \<open>check and add\<close>

definition QDollar_normalize ::
  "qpoint list \<Rightarrow> ((error + qpoint list) \<times> qpoint list) option" where
  "QDollar_normalize points =
     (case QDollar_resample points NumPoints of
        None \<Rightarrow> None
      | Some (Inl e, points') \<Rightarrow> Some (Inl e, points')
      | Some (Inr processed, points') \<Rightarrow>
          Some (Inr (QDollar_translateTo (QDollar_scale processed) Origin), points'))"

fun QDollar_check_loop ::
  "qpoint list \<Rightarrow> qd_template list \<Rightarrow> jsnum \<Rightarrow> qd_template option
     \<Rightarrow> error + jsnum \<times> qd_template option" where
  "QDollar_check_loop points [] minDistance bestTemplate = Inr (minDistance, bestTemplate)"
| "QDollar_check_loop points (T # Ts) minDistance bestTemplate =
     (case cloudMatch points T minDistance of
        Inl e \<Rightarrow> Inl e
      | Inr d \<Rightarrow>
          (if d < minDistance then QDollar_check_loop points Ts d (Some T)
           else QDollar_check_loop points Ts minDistance bestTemplate))"

definition QDollar_check_points ::
  "qd_template list \<Rightarrow> qpoint list \<Rightarrow> ((error + recognition) \<times> qpoint list) option" where
  "QDollar_check_points Templates points =
     (case QDollar_normalize points of
        None \<Rightarrow> None
      | Some (Inl e, points') \<Rightarrow> Some (Inl e, points')
      | Some (Inr processedPoints, points') \<Rightarrow>
          (case QDollar_check_loop processedPoints Templates PInf None of
             Inl e \<Rightarrow> Some (Inl e, points')
           | Inr (minDistance, bestTemplate) \<Rightarrow>
               Some (Inr (case bestTemplate of
                            None \<Rightarrow> \<lparr>name = ''No match'', score = Fin 0\<rparr>
                          | Some T \<Rightarrow>
                              \<lparr>name = Name T,
                               score = Math_max
                                 (Fin 1 - (minDistance / Fin (real NumPoints)) / Fin 0.5) (Fin 0)\<rparr>),
                     points')))"

definition QDollar_add_points ::
  "qd_template list \<Rightarrow> string \<Rightarrow> qpoint list
     \<Rightarrow> ((error + qd_template list) \<times> qpoint list) option" where
  "QDollar_add_points Templates name' points =
     (case QDollar_normalize points of
        None \<Rightarrow> None
      | Some (Inl e, points') \<Rightarrow> Some (Inl e, points')
      | Some (Inr processed, points') \<Rightarrow>
          Some (Inr (Templates @ [\<lparr>Name = name', Points = processed, LUT = []\<rparr>]), points'))"

subsection \<open>The cloud distance without the early return\<close>

text \<open>
  The full greedy match of the specification: \<open>_cloudDistance\<close> with its early
  return taken out, and \<open>check\<close> on top of it.
\<close>

fun cloudDistance_unpruned_loop ::
  "qpoint list \<Rightarrow> qpoint list \<Rightarrow> nat \<Rightarrow> bool list \<Rightarrow> jsnum \<Rightarrow> jsnum" where
  "cloudDistance_unpruned_loop [] pts2 n matched sum_acc = sum_acc"
| "cloudDistance_unpruned_loop (p # ps) pts2 n matched sum_acc =
     (let (index, min) = cloudDistance_inner p pts2 n matched;
          (matched', sum_acc') =
            (case index of
               None \<Rightarrow> (matched, sum_acc)
             | Some j \<Rightarrow> (matched[j := True], sum_acc + Math_sqrt min))
      in cloudDistance_unpruned_loop ps pts2 n matched' sum_acc')"

definition cloudDistance_unpruned :: "qpoint list \<Rightarrow> qpoint list \<Rightarrow> error + jsnum" where
  "cloudDistance_unpruned pts1 pts2 =
     (let n = length pts1 in
      if length pts2 < n then Inl TypeError
      else Inr (cloudDistance_unpruned_loop pts1 pts2 n (replicate n False) (Fin 0)))"

fun QDollar_check_unpruned_loop ::
  "qpoint list \<Rightarrow> qd_template list \<Rightarrow> jsnum \<Rightarrow> qd_template option
     \<Rightarrow> error + jsnum \<times> qd_template option" where
  "QDollar_check_unpruned_loop points [] minDistance bestTemplate = Inr (minDistance, bestTemplate)"
| "QDollar_check_unpruned_loop points (T # Ts) minDistance bestTemplate =
     (case cloudDistance_unpruned points (Points T) of
        Inl e \<Rightarrow> Inl e
      | Inr d \<Rightarrow>
          (if d < minDistance then QDollar_check_unpruned_loop points Ts d (Some T)
           else QDollar_check_unpruned_loop points Ts minDistance bestTemplate))"

definition QDollar_check_unpruned ::
  "qd_template list \<Rightarrow> qpoint list \<Rightarrow> ((error + recognition) \<times> qpoint list) option" where
  "QDollar_check_unpruned Templates points =
     (case QDollar_normalize points of
        None \<Rightarrow> None
      | Some (Inl e, points') \<Rightarrow> Some (Inl e, points')
      | Some (Inr processedPoints, points') \<Rightarrow>
          (case QDollar_check_unpruned_loop processedPoints Templates PInf None of
             Inl e \<Rightarrow> Some (Inl e, points')
           | Inr (minDistance, bestTemplate) \<Rightarrow>
               Some (Inr (case bestTemplate of
                            None \<Rightarrow> \<lparr>name = ''No match'', score = Fin 0\<rparr>
                          | Some T \<Rightarrow>
                              \<lparr>name = Name T,
                               score = Math_max
                                 (Fin 1 - (minDistance / Fin (real NumPoints)) / Fin 0.5) (Fin 0)\<rparr>),
                     points')))"

section \<open>The caller's array\<close>

text \<open>
  \<open>check\<close> and \<open>add\<close> are given a reference to the caller's array, and
  \<open>_resample\<close> splices into the array it is given. A store maps addresses to
  arrays; an array holds pairs \<open>[x, y]\<close> or records (the empty array is either).
  \<open>fresh\<close> is the next address \<open>map\<close> allocates at.
\<close>

datatype 'p jsarray = Pairs "(jsnum \<times> jsnum) list" | Records "'p list"

record 'p heap =
  cells :: "nat \<Rightarrow> 'p jsarray option"
  fresh :: nat

text \<open>The array at an address, read as an array of points, and written back after the splices.\<close>

definition points_of :: "'p heap \<Rightarrow> nat \<Rightarrow> 'p list" where
  "points_of h r = (case cells h r of Some (Records ps) \<Rightarrow> ps | _ \<Rightarrow> [])"

definition store_points :: "'p heap \<Rightarrow> nat \<Rightarrow> 'p list \<Rightarrow> 'p heap" where
  "store_points h r ps =
     (case cells h r of
        Some (Records _) \<Rightarrow> h\<lparr>cells := (cells h)(r \<mapsto> Records ps)\<rparr>
      | _ \<Rightarrow> h)"

text \<open>
  \<open>_convertPoints\<close>: \<open>Array.isArray(rawPoints[0])\<close> holds of a non-empty array of
  pairs, and \<open>map\<close> then builds a new array; otherwise the reference itself is
  returned.
\<close>

definition OneDollar_convertPoints :: "point heap \<Rightarrow> nat \<Rightarrow> nat \<times> point heap" where
  "OneDollar_convertPoints h rawPoints =
     (case cells h rawPoints of
        Some (Pairs (p # ps)) \<Rightarrow>
          (fresh h,
           h\<lparr>cells := (cells h)(fresh h \<mapsto> Records (map (\<lambda>(a, b). \<lparr>x = a, y = b\<rparr>) (p # ps))),
             fresh := fresh h + 1\<rparr>)
      | _ \<Rightarrow> (rawPoints, h))"

definition QDollar_convertPoints :: "qpoint heap \<Rightarrow> nat \<Rightarrow> nat \<times> qpoint heap" where
  "QDollar_convertPoints h rawPoints =
     (case cells h rawPoints of
        Some (Pairs (p # ps)) \<Rightarrow>
          (fresh h,
           h\<lparr>cells := (cells h)(fresh h \<mapsto>
                 Records (map (\<lambda>(a, b). \<lparr>x = a, y = b, id' = Some 1\<rparr>) (p # ps))),
             fresh := fresh h + 1\<rparr>)
      | _ \<Rightarrow> (rawPoints, h))"

text \<open>
  \<open>check(points)\<close> and \<open>add(name, points)\<close> on the store: the conversion, then the
  rest of the method on the array \<open>processedPoints\<close> refers to, whose splices are
  written to that array. The arrays the later stages build are returned, never
  shared with the caller.
\<close>

definition OneDollar_check ::
  "od_template list \<Rightarrow> point heap \<Rightarrow> nat \<Rightarrow> ((error + recognition) \<times> point heap) option" where
  "OneDollar_check Templates h points =
     (let (processedPoints, h') = OneDollar_convertPoints h points in
      case OneDollar_check_points Templates (points_of h' processedPoints) of
        None \<Rightarrow> None
      | Some (res, points') \<Rightarrow> Some (res, store_points h' processedPoints points'))"

definition OneDollar_add ::
  "od_template list \<Rightarrow> point heap \<Rightarrow> string \<Rightarrow> nat
     \<Rightarrow> ((error + od_template list) \<times> point heap) option" where
  "OneDollar_add Templates h name' points =
     (let (processed, h') = OneDollar_convertPoints h points in
      case OneDollar_add_points Templates name' (points_of h' processed) of
        None \<Rightarrow> None
      | Some (res, points') \<Rightarrow> Some (res, store_points h' processed points'))"

definition QDollar_check ::
  "qd_template list \<Rightarrow> qpoint heap \<Rightarrow> nat \<Rightarrow> ((error + recognition) \<times> qpoint heap) option" where
  "QDollar_check Templates h points =
     (let (processedPoints, h') = QDollar_convertPoints h points in
      case QDollar_check_points Templates (points_of h' processedPoints) of
        None \<Rightarrow> None
      | Some (res, points') \<Rightarrow> Some (res, store_points h' processedPoints points'))"

definition QDollar_add ::
  "qd_template list \<Rightarrow> qpoint heap \<Rightarrow> string \<Rightarrow> nat
     \<Rightarrow> ((error + qd_template list) \<times> qpoint heap) option" where
  "QDollar_add Templates h name' points =
     (let (processed, h') = QDollar_convertPoints h points in
      case QDollar_add_points Templates name' (points_of h' processed) of
        None \<Rightarrow> None
      | Some (res, points') \<Rightarrow> Some (res, store_points h' processed points'))"

section \<open>Auxiliary predicates of the proofs\<close>

text \<open>What the inner loop of \<open>_cloudDistance\<close> can leave in \<open>index\<close> and \<open>min\<close>.\<close>

definition nearest_ok :: "nat option \<times> jsnum \<Rightarrow> bool" where
  "nearest_ok s = (s = (None, PInf) \<or> (\<exists>j r. 0 \<le> r \<and> s = (Some j, Fin r)))"

text \<open>The golden ratio of \<open>Phi\<close>, as a real.\<close>

definition phi :: real where
  "phi = (sqrt 5 - 1) / 2"

text \<open>
  The scan both \<open>check\<close> loops make over the distances of the templates: \<open>b\<close> is
  the least distance so far, and the index of the template that gave it (\<open>None\<close>
  while no distance was below the initial \<open>b\<close>).
\<close>

fun first_min_scan :: "jsnum list \<Rightarrow> nat \<Rightarrow> jsnum \<Rightarrow> nat option \<Rightarrow> jsnum \<times> nat option" where
  "first_min_scan [] i b r = (b, r)"
| "first_min_scan (d # ds) i b r =
     (if d < b then first_min_scan ds (i + 1) d (Some i) else first_min_scan ds (i + 1) b r)"

definition scan_inv :: "jsnum list \<Rightarrow> jsnum \<Rightarrow> nat option \<Rightarrow> bool" where
  "scan_inv pre b r =
     (b \<noteq> NaN \<and>
      (case r of
         None \<Rightarrow> b = PInf \<and> list_all (\<lambda>d. \<not> d < PInf) pre
       | Some t \<Rightarrow> t < length pre \<and> pre ! t = b \<and> list_all (\<lambda>d. \<not> d < b) pre
           \<and> list_all (\<lambda>d. d \<noteq> b) (take t pre)))"

text \<open>The point both coordinates of which are \<open>NaN\<close>.\<close>

definition NaN_point :: point where
  "NaN_point = \<lparr>x = NaN, y = NaN\<rparr>"

section \<open>Example inputs\<close>

definition example_point :: point where
  "example_point = \<lparr>x = Fin 3, y = Fin 4\<rparr>"

definition example_store :: "od_template list" where
  "example_store =
     [\<lparr>Name = ''Line'', Points = [\<lparr>x = Fin 0, y = Fin 0\<rparr>, \<lparr>x = Fin 1, y = Fin 1\<rparr>], Vector = []\<rparr>]"

definition example_qpoint :: qpoint where
  "example_qpoint = \<lparr>x = Fin 1, y = Fin 2, id' = Some 1\<rparr>"

definition example_qstore :: "qd_template list" where
  "example_qstore =
     [\<lparr>Name = ''Dot'', Points = [\<lparr>x = Fin 0, y = Fin 0, id' = Some 1\<rparr>], LUT = []\<rparr>]"

text \<open>
  The coordinates, the distance and the path length of finite points as reals. The
  second path length leaves out the segments between two strokes, as
  \<open>_pathLength\<close> of the cloud recogniser does.
\<close>

definition rdist :: "'a point_scheme \<Rightarrow> 'b point_scheme \<Rightarrow> real" where
  "rdist p q =
     sqrt ((val (x p) - val (x q)) * (val (x p) - val (x q))
         + (val (y p) - val (y q)) * (val (y p) - val (y q)))"

fun rpath :: "'a point_scheme list \<Rightarrow> real" where
  "rpath (p # q # ps) = rdist p q + rpath (q # ps)"
| "rpath _ = 0"

fun qpath :: "qpoint list \<Rightarrow> real" where
  "qpath (p # q # ps) = (if id' q = id' p then rdist p q else 0) + qpath (q # ps)"
| "qpath _ = 0"

definition example_stroke :: "point list" where
  "example_stroke = [\<lparr>x = Fin 0, y = Fin 0\<rparr>, \<lparr>x = Fin 3, y = Fin 4\<rparr>]"

definition example_qstroke :: "qpoint list" where
  "example_qstroke = [\<lparr>x = Fin 0, y = Fin 0, id' = Some 1\<rparr>, \<lparr>x = Fin 3, y = Fin 4, id' = Some 1\<rparr>]"

definition example_pairs :: "(jsnum \<times> jsnum) list" where
  "example_pairs = [(Fin 0, Fin 0), (Fin 3, Fin 4)]"

text \<open>A store whose only array, at address 0, is the caller's.\<close>

definition caller_heap :: "'p jsarray \<Rightarrow> 'p heap" where
  "caller_heap arr = \<lparr>cells = (\<lambda>a. if a = 0 then Some arr else None), fresh = 1\<rparr>"

text \<open>Stores of one template of \<open>NumPoints\<close> points.\<close>

definition example_store64 :: "od_template list" where
  "example_store64 =
     [\<lparr>Name = ''Dot'', Points = replicate 64 \<lparr>x = Fin 0, y = Fin 0\<rparr>, Vector = []\<rparr>]"

definition example_qstore64 :: "qd_template list" where
  "example_qstore64 =
     [\<lparr>Name = ''Dot'', Points = replicate 64 \<lparr>x = Fin 0, y = Fin 0, id' = Some 1\<rparr>, LUT = []\<rparr>]"

section \<open>Facts about the numbers\<close>

lemma minus_Fin [simp]: "Fin a - Fin b = Fin (a - b)"
  by (simp add: minus_jsnum_def)

lemma isFin_cases: "isFin a \<Longrightarrow> (\<And>r. a = Fin r \<Longrightarrow> P) \<Longrightarrow> P"
  by (cases a) auto

section \<open>The centroid of finite points\<close>

lemma centroid_fold_finite:
  "finite_points points \<Longrightarrow>
   foldl (\<lambda>(sx, sy) p. (sx + x p, sy + y p)) (Fin a, Fin b) points =
     (Fin (a + (\<Sum>p\<leftarrow>points. val (x p))), Fin (b + (\<Sum>p\<leftarrow>points. val (y p))))"
proof (induction points arbitrary: a b)
  case Nil
  then show ?case by simp
next
  case (Cons p ps)
  from Cons.prems obtain r s where p: "x p = Fin r" "y p = Fin s" and ps: "finite_points ps"
    by (auto simp: finite_points_def finite_point_def elim!: isFin_cases)
  show ?case
    using Cons.IH [OF ps, of "a + r" "b + s"] p by (simp add: add.assoc)
qed

lemma centroid_finite:
  assumes "finite_points points" "points \<noteq> []"
  shows "centroid points =
     \<lparr>x = Fin ((\<Sum>p\<leftarrow>points. val (x p)) / real (length points)),
      y = Fin ((\<Sum>p\<leftarrow>points. val (y p)) / real (length points))\<rparr>"
  using assms by (simp add: centroid_def centroid_fold_finite)

lemma sum_list_shift:
  "(\<Sum>p\<leftarrow>ps. f p + (c::real)) = (\<Sum>p\<leftarrow>ps. f p) + real (length ps) * c"
  by (induction ps) (simp_all add: algebra_simps)

lemma shifted_mean:
  assumes "n \<noteq> (0::real)"
  shows "(s + n * (t - s / n)) / n = t"
  using assms by (simp add: field_simps)

lemma OneDollar_translateTo_finite:
  assumes "finite_points points" "points \<noteq> []" "finite_point pt"
  shows "OneDollar_translateTo points pt =
     map (\<lambda>p. \<lparr>x = Fin (val (x p) + (val (x pt) - val (x (centroid points)))),
               y = Fin (val (y p) + (val (y pt) - val (y (centroid points))))\<rparr>) points"
proof -
  obtain a b where pt: "x pt = Fin a" "y pt = Fin b"
    using assms(3) by (auto simp: finite_point_def elim!: isFin_cases)
  have "\<forall>p\<in>set points. \<exists>r s. x p = Fin r \<and> y p = Fin s"
    using assms(1) by (auto simp: finite_points_def finite_point_def list_all_iff elim!: isFin_cases)
  then show ?thesis
    unfolding OneDollar_translateTo_def Let_def
    by (auto simp: centroid_finite [OF assms(1,2)] pt)
qed

lemma QDollar_translateTo_finite:
  assumes "finite_points points" "points \<noteq> []" "finite_point pt"
  shows "QDollar_translateTo points pt =
     map (\<lambda>p. \<lparr>x = Fin (val (x p) + (val (x pt) - val (x (centroid points)))),
               y = Fin (val (y p) + (val (y pt) - val (y (centroid points)))),
               id' = id' p\<rparr>) points"
proof -
  obtain a b where pt: "x pt = Fin a" "y pt = Fin b"
    using assms(3) by (auto simp: finite_point_def elim!: isFin_cases)
  have "\<forall>p\<in>set points. \<exists>r s. x p = Fin r \<and> y p = Fin s"
    using assms(1) by (auto simp: finite_points_def finite_point_def list_all_iff elim!: isFin_cases)
  then show ?thesis
    unfolding QDollar_translateTo_def Let_def
    by (auto simp: centroid_finite [OF assms(1,2)] pt)
qed

lemma centroid_of_shift:
  fixes f :: "'a point_scheme \<Rightarrow> 'b point_scheme"
  assumes "finite_points points" "points \<noteq> []"
    and fx: "\<And>p. x (f p) = Fin (val (x p) + (a - val (x (centroid points))))"
    and fy: "\<And>p. y (f p) = Fin (val (y p) + (b - val (y (centroid points))))"
  shows "centroid (map f points) = \<lparr>x = Fin a, y = Fin b\<rparr>"
proof -
  have fin: "finite_points (map f points)"
    by (simp add: finite_points_def finite_point_def list_all_iff fx fy)
  have ne: "map f points \<noteq> []" "real (length points) \<noteq> 0"
    using assms(2) by simp_all
  show ?thesis
    unfolding centroid_finite [OF fin ne(1)]
    by (simp add: comp_def fx fy sum_list_shift centroid_finite [OF assms(1,2)]
        shifted_mean [OF ne(2)])
qed

section \<open>The cloud distance and its early return\<close>

lemma square_cases:
  fixes a :: jsnum
  shows "a * a = NaN \<or> a * a = PInf \<or> (\<exists>r\<ge>0. a * a = Fin r)"
  by (cases a) auto

lemma sqrEuclideanDistance_cases:
  "sqrEuclideanDistance p q = NaN \<or> sqrEuclideanDistance p q = PInf
     \<or> (\<exists>r\<ge>0. sqrEuclideanDistance p q = Fin r)"
proof -
  define dx where "dx = x p - x q"
  define dy where "dy = y p - y q"
  have "dx * dx + dy * dy = NaN \<or> dx * dx + dy * dy = PInf \<or> (\<exists>r\<ge>0. dx * dx + dy * dy = Fin r)"
    using square_cases [of dx] square_cases [of dy] by auto
  then show ?thesis
    by (simp add: sqrEuclideanDistance_def dx_def dy_def Let_def)
qed

lemma foldl_invariant:
  assumes "P s" and "\<And>s j. P s \<Longrightarrow> P (f s j)"
  shows "P (foldl f s js)"
  using assms(1) by (induction js arbitrary: s) (simp_all add: assms(2))

lemma cloudDistance_inner_ok: "nearest_ok (cloudDistance_inner p pts2 n matched)"
  unfolding cloudDistance_inner_def
proof (rule foldl_invariant)
  show "nearest_ok (None, PInf)" by (simp add: nearest_ok_def)
next
  fix s :: "nat option \<times> jsnum" and j
  assume s: "nearest_ok s"
  obtain index m where sm: "s = (index, m)" by (cases s)
  show "nearest_ok ((\<lambda>(index, min) j.
              if \<not> matched ! j then
                (let d = sqrEuclideanDistance p (pts2 ! j) in
                 if d < min then (Some j, d) else (index, min))
              else (index, min)) s j)"
    using s sqrEuclideanDistance_cases [of p "pts2 ! j"]
    by (auto simp: sm nearest_ok_def Let_def)
qed

lemma cloud_step:
  obtains (skip) "cloudDistance_inner p pts2 n matched = (None, PInf)"
  | (take) j r where "0 \<le> r" "cloudDistance_inner p pts2 n matched = (Some j, Fin r)"
  using cloudDistance_inner_ok [of p pts2 n matched] by (auto simp: nearest_ok_def)

lemma unpruned_loop_Fin:
  "\<exists>f. cloudDistance_unpruned_loop ps pts2 n matched (Fin s) = Fin f \<and> s \<le> f"
proof (induction ps arbitrary: matched s)
  case Nil
  then show ?case by simp
next
  case (Cons p ps)
  show ?case
  proof (cases rule: cloud_step [of p pts2 n matched])
    case skip
    then show ?thesis using Cons.IH [of matched s] by simp
  next
    case (take j r)
    obtain f where "cloudDistance_unpruned_loop ps pts2 n (matched[j := True]) (Fin (s + sqrt r)) = Fin f"
      "s + sqrt r \<le> f"
      using Cons.IH [of "matched[j := True]" "s + sqrt r"] by blast
    moreover have "s \<le> f"
      using calculation(2) real_sqrt_ge_zero [OF take(1)] by linarith
    ultimately show ?thesis using take by auto
  qed
qed

lemma pruned_loop_agrees:
  "\<exists>u. cloudDistance_loop ps pts2 n minSoFar matched (Fin s) = Fin u \<and> s \<le> u
     \<and> (Fin u < minSoFar \<longrightarrow>
          cloudDistance_unpruned_loop ps pts2 n matched (Fin s) = Fin u)
     \<and> (\<not> Fin u < minSoFar \<longrightarrow>
          \<not> cloudDistance_unpruned_loop ps pts2 n matched (Fin s) < minSoFar)"
proof (induction ps arbitrary: matched s)
  case Nil
  then show ?case by simp
next
  case (Cons p ps)
  have stop: "\<exists>u. Fin s' = Fin u \<and> s \<le> u \<and> (Fin u < minSoFar \<longrightarrow> full = Fin u)
        \<and> (\<not> Fin u < minSoFar \<longrightarrow> \<not> full < minSoFar)"
    if "minSoFar \<le> Fin s'" "s \<le> s'" "full = Fin f" "s' \<le> f" for s' full f
    using that by (cases minSoFar) auto
  show ?case
  proof (cases rule: cloud_step [of p pts2 n matched])
    case skip
    show ?thesis
    proof (cases "minSoFar \<le> Fin s")
      case True
      obtain f where "cloudDistance_unpruned_loop ps pts2 n matched (Fin s) = Fin f" "s \<le> f"
        using unpruned_loop_Fin by blast
      then show ?thesis using skip True stop [of s _ f] by simp
    next
      case False
      then show ?thesis using skip Cons.IH [of matched s] by simp
    qed
  next
    case (take j r)
    have r: "s \<le> s + sqrt r" using real_sqrt_ge_zero [OF take(1)] by linarith
    show ?thesis
    proof (cases "minSoFar \<le> Fin (s + sqrt r)")
      case True
      obtain f where "cloudDistance_unpruned_loop ps pts2 n (matched[j := True]) (Fin (s + sqrt r)) = Fin f"
        "s + sqrt r \<le> f"
        using unpruned_loop_Fin by blast
      then show ?thesis using take True r stop [of "s + sqrt r" _ f] by simp
    next
      case False
      obtain u where u: "cloudDistance_loop ps pts2 n minSoFar (matched[j := True]) (Fin (s + sqrt r)) = Fin u"
        "s + sqrt r \<le> u"
        "Fin u < minSoFar \<longrightarrow>
          cloudDistance_unpruned_loop ps pts2 n (matched[j := True]) (Fin (s + sqrt r)) = Fin u"
        "\<not> Fin u < minSoFar \<longrightarrow>
          \<not> cloudDistance_unpruned_loop ps pts2 n (matched[j := True]) (Fin (s + sqrt r)) < minSoFar"
        using Cons.IH [of "matched[j := True]" "s + sqrt r"] by blast
      moreover have "s \<le> u"
        using u(2) real_sqrt_ge_zero [OF take(1)] by linarith
      ultimately show ?thesis using take False by simp
    qed
  qed
qed

lemma cloudDistance_agrees:
  "(\<exists>e. cloudDistance pts1 pts2 start minSoFar = Inl e \<and> cloudDistance_unpruned pts1 pts2 = Inl e)
   \<or> (\<exists>d d'. cloudDistance pts1 pts2 start minSoFar = Inr d \<and> cloudDistance_unpruned pts1 pts2 = Inr d'
        \<and> (d < minSoFar \<longleftrightarrow> d' < minSoFar) \<and> (d < minSoFar \<longrightarrow> d = d'))"
proof (cases "length pts2 < length pts1")
  case True
  then show ?thesis by (simp add: cloudDistance_def cloudDistance_unpruned_def)
next
  case False
  obtain u where "cloudDistance_loop pts1 pts2 (length pts1) minSoFar (replicate (length pts1) False) (Fin 0) = Fin u"
    "Fin u < minSoFar \<longrightarrow>
          cloudDistance_unpruned_loop pts1 pts2 (length pts1) (replicate (length pts1) False) (Fin 0) = Fin u"
    "\<not> Fin u < minSoFar \<longrightarrow>
          \<not> cloudDistance_unpruned_loop pts1 pts2 (length pts1) (replicate (length pts1) False) (Fin 0) < minSoFar"
    using pruned_loop_agrees by blast
  then show ?thesis using False
    by (auto simp: cloudDistance_def cloudDistance_unpruned_def Let_def)
qed

lemma QDollar_check_loop_unpruned:
  "QDollar_check_loop points Ts minDistance bestTemplate =
   QDollar_check_unpruned_loop points Ts minDistance bestTemplate"
proof (induction Ts arbitrary: minDistance bestTemplate)
  case Nil
  then show ?case by simp
next
  case (Cons T Ts)
  show ?case
    using cloudDistance_agrees [of points "Points T" 0 minDistance] Cons.IH
    by (auto simp: cloudMatch_def)
qed

section \<open>The golden-section search\<close>

lemma sqrt5_bounds: "2 < sqrt 5" "sqrt 5 < 3"
  by (rule real_less_rsqrt, simp) (rule real_less_lsqrt, simp_all)

lemma phi_pos: "0 < phi" and phi_less_1: "phi < 1"
  using sqrt5_bounds by (simp_all add: phi_def)

lemma phi_square: "phi * phi = 1 - phi"
proof -
  have "sqrt 5 * sqrt 5 = 5" by simp
  then show ?thesis
    by (simp add: phi_def field_simps)
qed

lemma Phi_phi: "Phi = Fin phi"
  by (simp add: Phi_def phi_def)

lemma one_minus_Phi: "Fin 1 - Phi = Fin (1 - phi)"
  by (simp add: Phi_phi)

lemma golden_loop_returns:
  assumes F: "\<And>r. F r = Inr (g r)" and tau: "0 < tau"
    and k: "\<bar>beta - alpha\<bar> * phi ^ k \<le> tau"
    and x1: "xi1 = phi * alpha + (1 - phi) * beta"
    and x2: "xi2 = (1 - phi) * alpha + phi * beta"
    and f1: "f1 = g (Fin xi1)" and f2: "f2 = g (Fin xi2)"
  shows "\<exists>alpha' beta' m.
      distanceAtBestAngle_loop F (Fin tau) (Fin alpha) (Fin beta) (Fin xi1) f1 (Fin xi2) f2 evals =
        Some (Inr (Fin alpha', Fin beta',
                   g (Fin (phi * alpha' + (1 - phi) * beta')),
                   g (Fin ((1 - phi) * alpha' + phi * beta')), evals + m))
      \<and> \<bar>beta' - alpha'\<bar> \<le> tau
      \<and> \<bar>beta' - alpha'\<bar> = phi ^ m * \<bar>beta - alpha\<bar>
      \<and> (\<forall>j<m. tau < phi ^ j * \<bar>beta - alpha\<bar>)"
  using k x1 x2 f1 f2
proof (induction k arbitrary: alpha beta xi1 xi2 f1 f2 evals)
  case 0
  then have "\<not> tau < \<bar>beta - alpha\<bar>" by simp
  then show ?case
    using 0
    by (subst distanceAtBestAngle_loop.simps)
       (auto intro!: exI [of _ alpha] exI [of _ beta] exI [of _ "0::nat"])
next
  case (Suc k)
  show ?case
  proof (cases "tau < \<bar>beta - alpha\<bar>")
    case False
    then show ?thesis
      using Suc.prems
      by (subst distanceAtBestAngle_loop.simps)
         (auto intro!: exI [of _ alpha] exI [of _ beta] exI [of _ "0::nat"])
  next
    case True
    show ?thesis
    proof (cases "f1 < f2")
      case lt: True
      let ?b = xi2
      let ?x1 = "phi * alpha + (1 - phi) * ?b"
      have w: "\<bar>?b - alpha\<bar> = phi * \<bar>beta - alpha\<bar>"
      proof -
        have "?b - alpha = phi * (beta - alpha)"
          by (simp add: Suc.prems(3) algebra_simps)
        then show ?thesis using phi_pos by (simp add: abs_mult)
      qed
      have k': "\<bar>?b - alpha\<bar> * phi ^ k \<le> tau"
        using Suc.prems(1) by (simp add: w mult_ac)
      have x2': "xi1 = (1 - phi) * alpha + phi * ?b"
      proof -
        have "(1 - phi) * alpha + phi * ?b = (1 - phi * phi) * alpha + (phi * phi) * beta"
          by (simp add: Suc.prems(3) algebra_simps)
        then show ?thesis by (simp add: phi_square Suc.prems(2))
      qed
      obtain alpha' beta' m where r:
        "distanceAtBestAngle_loop F (Fin tau) (Fin alpha) (Fin ?b) (Fin ?x1) (g (Fin ?x1)) (Fin xi1) f1
           (evals + 1) =
          Some (Inr (Fin alpha', Fin beta',
                   g (Fin (phi * alpha' + (1 - phi) * beta')),
                   g (Fin ((1 - phi) * alpha' + phi * beta')), evals + 1 + m))"
        "\<bar>beta' - alpha'\<bar> \<le> tau"
        "\<bar>beta' - alpha'\<bar> = phi ^ m * \<bar>?b - alpha\<bar>"
        "\<forall>j<m. tau < phi ^ j * \<bar>?b - alpha\<bar>"
        using Suc.IH [OF k' refl x2' refl Suc.prems(4), of "evals + 1"] by blast
      have step: "distanceAtBestAngle_loop F (Fin tau) (Fin alpha) (Fin beta) (Fin xi1) f1 (Fin xi2) f2 evals =
          distanceAtBestAngle_loop F (Fin tau) (Fin alpha) (Fin ?b) (Fin ?x1) (g (Fin ?x1)) (Fin xi1) f1
           (evals + 1)"
        using True lt
        by (subst distanceAtBestAngle_loop.simps) (simp add: F Phi_phi Let_def)
      have all: "\<forall>j<Suc m. tau < phi ^ j * \<bar>beta - alpha\<bar>"
      proof (intro allI impI)
        fix j assume "j < Suc m"
        show "tau < phi ^ j * \<bar>beta - alpha\<bar>"
        proof (cases j)
          case 0
          then show ?thesis using True by simp
        next
          case (Suc i)
          then have "i < m" using \<open>j < Suc m\<close> by simp
          then have "tau < phi ^ i * \<bar>?b - alpha\<bar>" using r(4) by blast
          then show ?thesis by (simp add: Suc w mult_ac)
        qed
      qed
      show ?thesis
        using r(1,2,3) all
        by (intro exI [of _ alpha'] exI [of _ beta'] exI [of _ "Suc m"]) (simp add: step w mult_ac)
    next
      case ge: False
      let ?a = xi1
      let ?x2 = "(1 - phi) * ?a + phi * beta"
      have w: "\<bar>beta - ?a\<bar> = phi * \<bar>beta - alpha\<bar>"
      proof -
        have "beta - ?a = phi * (beta - alpha)"
          by (simp add: Suc.prems(2) algebra_simps)
        then show ?thesis using phi_pos by (simp add: abs_mult)
      qed
      have k': "\<bar>beta - ?a\<bar> * phi ^ k \<le> tau"
        using Suc.prems(1) by (simp add: w mult_ac)
      have x1': "xi2 = phi * ?a + (1 - phi) * beta"
      proof -
        have "phi * ?a + (1 - phi) * beta = (phi * phi) * alpha + (1 - phi * phi) * beta"
          by (simp add: Suc.prems(2) algebra_simps)
        then show ?thesis by (simp add: phi_square Suc.prems(3))
      qed
      obtain alpha' beta' m where r:
        "distanceAtBestAngle_loop F (Fin tau) (Fin ?a) (Fin beta) (Fin xi2) f2 (Fin ?x2) (g (Fin ?x2))
           (evals + 1) =
          Some (Inr (Fin alpha', Fin beta',
                   g (Fin (phi * alpha' + (1 - phi) * beta')),
                   g (Fin ((1 - phi) * alpha' + phi * beta')), evals + 1 + m))"
        "\<bar>beta' - alpha'\<bar> \<le> tau"
        "\<bar>beta' - alpha'\<bar> = phi ^ m * \<bar>beta - ?a\<bar>"
        "\<forall>j<m. tau < phi ^ j * \<bar>beta - ?a\<bar>"
        using Suc.IH [OF k' x1' refl Suc.prems(5) refl, of "evals + 1"] by blast
      have step: "distanceAtBestAngle_loop F (Fin tau) (Fin alpha) (Fin beta) (Fin xi1) f1 (Fin xi2) f2 evals =
          distanceAtBestAngle_loop F (Fin tau) (Fin ?a) (Fin beta) (Fin xi2) f2 (Fin ?x2) (g (Fin ?x2))
           (evals + 1)"
        using True ge
        by (subst distanceAtBestAngle_loop.simps) (simp add: F Phi_phi Let_def)
      have all: "\<forall>j<Suc m. tau < phi ^ j * \<bar>beta - alpha\<bar>"
      proof (intro allI impI)
        fix j assume "j < Suc m"
        show "tau < phi ^ j * \<bar>beta - alpha\<bar>"
        proof (cases j)
          case 0
          then show ?thesis using True by simp
        next
          case (Suc i)
          then have "i < m" using \<open>j < Suc m\<close> by simp
          then have "tau < phi ^ i * \<bar>beta - ?a\<bar>" using r(4) by blast
          then show ?thesis by (simp add: Suc w mult_ac)
        qed
      qed
      show ?thesis
        using r(1,2,3) all
        by (intro exI [of _ alpha'] exI [of _ beta'] exI [of _ "Suc m"]) (simp add: step w mult_ac)
    qed
  qed
qed

lemma golden_iterations_exist:
  assumes "0 < tau"
  shows "\<exists>k. \<bar>w\<bar> * phi ^ k \<le> (tau::real)"
proof (cases "w = 0")
  case True
  then show ?thesis using assms by simp
next
  case False
  then have "0 < tau / \<bar>w\<bar>" using assms by simp
  then obtain k where "phi ^ k < tau / \<bar>w\<bar>"
    using real_arch_pow_inv [OF _ phi_less_1] by blast
  then have "\<bar>w\<bar> * phi ^ k < tau" using False by (simp add: field_simps)
  then show ?thesis by (intro exI [of _ k]) simp
qed

lemma golden_search_returns:
  assumes F: "\<And>r. F r = Inr (g r)" and tau: "0 < tau"
  shows "\<exists>alpha' beta' m.
      distanceAtBestAngle_search F (Fin alpha) (Fin beta) (Fin tau) =
        Some (Inr (Fin alpha', Fin beta',
                   g (Fin (phi * alpha' + (1 - phi) * beta')),
                   g (Fin ((1 - phi) * alpha' + phi * beta')), 2 + m))
      \<and> \<bar>beta' - alpha'\<bar> \<le> tau
      \<and> \<bar>beta' - alpha'\<bar> = phi ^ m * \<bar>beta - alpha\<bar>
      \<and> (\<forall>j<m. tau < phi ^ j * \<bar>beta - alpha\<bar>)"
proof -
  obtain k where k: "\<bar>beta - alpha\<bar> * phi ^ k \<le> tau"
    using golden_iterations_exist [OF tau] by blast
  have "distanceAtBestAngle_search F (Fin alpha) (Fin beta) (Fin tau) =
      distanceAtBestAngle_loop F (Fin tau) (Fin alpha) (Fin beta)
        (Fin (phi * alpha + (1 - phi) * beta)) (g (Fin (phi * alpha + (1 - phi) * beta)))
        (Fin ((1 - phi) * alpha + phi * beta)) (g (Fin ((1 - phi) * alpha + phi * beta))) 2"
    by (simp add: distanceAtBestAngle_search_def F Phi_phi Let_def)
  then show ?thesis
    using golden_loop_returns [OF F tau k refl refl refl refl, where evals = 2] by simp
qed

lemma rotateBy_length [simp]: "length (rotateBy points radians) = length points"
  by (simp add: rotateBy_def Let_def)

lemma distanceAtAngle_throws:
  "length (Points T) < length points \<Longrightarrow> distanceAtAngle points T r = Inl TypeError"
  by (simp add: distanceAtAngle_def pathDistance_def)

lemma distanceAtAngle_returns:
  "length points \<le> length (Points T) \<Longrightarrow>
   distanceAtAngle points T r = Inr (projr (distanceAtAngle points T r))"
  by (simp add: distanceAtAngle_def pathDistance_def)

lemma distanceAtBestAngle_throws:
  "length (Points T) < length points \<Longrightarrow>
   distanceAtBestAngle points T a b threshold = Some (Inl TypeError)"
  by (simp add: distanceAtBestAngle_def distanceAtBestAngle_search_def distanceAtAngle_throws)

lemma distanceAtBestAngle_returns:
  assumes "length points \<le> length (Points T)" "0 < tau"
  shows "\<exists>alpha' beta' f1 f2 m.
      distanceAtBestAngle_search (distanceAtAngle points T) (Fin alpha) (Fin beta) (Fin tau) =
        Some (Inr (Fin alpha', Fin beta', f1, f2, 2 + m))
      \<and> \<bar>beta' - alpha'\<bar> \<le> tau
      \<and> \<bar>beta' - alpha'\<bar> = phi ^ m * \<bar>beta - alpha\<bar>
      \<and> (\<forall>j<m. tau < phi ^ j * \<bar>beta - alpha\<bar>)
      \<and> distanceAtAngle points T (Fin (phi * alpha' + (1 - phi) * beta')) = Inr f1
      \<and> distanceAtAngle points T (Fin ((1 - phi) * alpha' + phi * beta')) = Inr f2
      \<and> distanceAtBestAngle points T (Fin alpha) (Fin beta) (Fin tau) = Some (Inr (Math_min f1 f2))"
proof -
  define g where "g r = projr (distanceAtAngle points T r)" for r
  have F: "\<And>r. distanceAtAngle points T r = Inr (g r)"
    unfolding g_def by (rule distanceAtAngle_returns [OF assms(1)])
  obtain alpha' beta' m where r:
    "distanceAtBestAngle_search (distanceAtAngle points T) (Fin alpha) (Fin beta) (Fin tau) =
        Some (Inr (Fin alpha', Fin beta',
                   g (Fin (phi * alpha' + (1 - phi) * beta')),
                   g (Fin ((1 - phi) * alpha' + phi * beta')), 2 + m))"
    "\<bar>beta' - alpha'\<bar> \<le> tau"
    "\<bar>beta' - alpha'\<bar> = phi ^ m * \<bar>beta - alpha\<bar>"
    "\<forall>j<m. tau < phi ^ j * \<bar>beta - alpha\<bar>"
    using golden_search_returns [of "distanceAtAngle points T" g, OF F assms(2)] by blast
  show ?thesis
    using r
    by (intro exI [of _ alpha'] exI [of _ beta'] exI [of _ m]
        exI [of _ "g (Fin (phi * alpha' + (1 - phi) * beta'))"]
        exI [of _ "g (Fin ((1 - phi) * alpha' + phi * beta'))"])
       (simp add: F distanceAtBestAngle_def)
qed

section \<open>Comparisons, and the scan for the first minimum\<close>

lemma NaN_absorbs [simp]:
  fixes a :: jsnum
  shows "a + NaN = NaN" "NaN + a = NaN" "a * NaN = NaN" "NaN * a = NaN"
    "a - NaN = NaN" "NaN - a = NaN" "a / NaN = NaN" "NaN / a = NaN" "- NaN = (NaN::jsnum)"
  by (cases a; simp add: minus_jsnum_def)+

lemma NaN_compare [simp]:
  fixes a :: jsnum
  shows "\<not> a < NaN" "\<not> NaN < a" "\<not> a \<le> NaN" "\<not> NaN \<le> a"
  by (cases a; simp)+

lemma jsnum_less_irrefl [simp]: "\<not> (a::jsnum) < a"
  by (cases a) simp_all

lemma jsnum_less_trans: "(a::jsnum) < b \<Longrightarrow> b < c \<Longrightarrow> a < c"
  by (cases a; cases b; cases c) simp_all

lemma jsnum_not_less_le: "\<not> (a::jsnum) < b \<Longrightarrow> a \<noteq> NaN \<Longrightarrow> b \<noteq> NaN \<Longrightarrow> b \<le> a"
  by (cases a; cases b) simp_all

lemma jsnum_less_not_NaN: "(a::jsnum) < b \<Longrightarrow> a \<noteq> NaN \<and> b \<noteq> NaN"
  by (cases a; cases b) simp_all

lemma not_less_PInf: "\<not> (a::jsnum) < PInf \<longleftrightarrow> a = NaN \<or> a = PInf"
  by (cases a) simp_all

lemma PInf_not_less [simp]: "\<not> PInf < (a::jsnum)"
  by (cases a) simp_all

lemma first_min_scan_inv:
  assumes "scan_inv pre b r" "i = length pre"
  shows "case first_min_scan ds i b r of (b', r') \<Rightarrow> scan_inv (pre @ ds) b' r'"
  using assms
proof (induction ds arbitrary: pre b r i)
  case Nil
  then show ?case by simp
next
  case (Cons d ds)
  show ?case
  proof (cases "d < b")
    case True
    have "scan_inv (pre @ [d]) d (Some i)"
    proof -
      have d: "d \<noteq> NaN" "d \<noteq> PInf" using True jsnum_less_not_NaN [of d b] by auto
      have 1: "list_all (\<lambda>e. \<not> e < d) pre \<and> list_all (\<lambda>e. e \<noteq> d) pre"
      proof (cases r)
        case None
        then have "b = PInf" "list_all (\<lambda>e. \<not> e < PInf) pre"
          using Cons.prems(1) by (simp_all add: scan_inv_def)
        then show ?thesis using d
          by (auto simp: list_all_iff not_less_PInf)
      next
        case (Some t)
        then have "list_all (\<lambda>e. \<not> e < b) pre"
          using Cons.prems(1) by (simp add: scan_inv_def)
        then show ?thesis using True
          by (auto simp: list_all_iff dest: jsnum_less_trans)
      qed
      then show ?thesis
        using d Cons.prems(2) by (simp add: scan_inv_def nth_append)
    qed
    from Cons.IH [OF this, of "i + 1"] show ?thesis
      using True Cons.prems(2) by simp
  next
    case False
    have "scan_inv (pre @ [d]) b r"
      using Cons.prems(1) False
      by (auto simp: scan_inv_def nth_append split: option.splits)
    from Cons.IH [OF this, of "i + 1"] show ?thesis
      using False Cons.prems(2) by simp
  qed
qed

lemma scan_inv_start: "scan_inv [] PInf None"
  by (simp add: scan_inv_def)

text \<open>What the invariant says of the index the scan ends with.\<close>

lemma scan_inv_minimal:
  assumes "scan_inv ds b r" "ds \<noteq> []"
  defines "t \<equiv> (case r of None \<Rightarrow> 0 | Some j \<Rightarrow> j)"
  shows "t < length ds"
    and "\<forall>j<length ds. \<not> ds ! j < ds ! t"
    and "\<forall>j<length ds. ds ! j = ds ! t \<longrightarrow> t \<le> j"
    and "NaN \<notin> set ds \<longrightarrow> (\<forall>j<length ds. ds ! t \<le> ds ! j) \<and> b = ds ! t"
proof -
  show "t < length ds"
    using assms(1,2) by (auto simp: scan_inv_def t_def split: option.splits)
  show "\<forall>j<length ds. \<not> ds ! j < ds ! t"
  proof (cases r)
    case None
    then have "\<forall>j<length ds. ds ! j = NaN \<or> ds ! j = PInf"
      using assms(1) by (auto simp: scan_inv_def list_all_length not_less_PInf)
    then show ?thesis by (metis NaN_compare(2) PInf_not_less)
  next
    case (Some j)
    then show ?thesis
      using assms(1) by (auto simp: scan_inv_def t_def list_all_length)
  qed
  show "\<forall>j<length ds. ds ! j = ds ! t \<longrightarrow> t \<le> j"
  proof (cases r)
    case None
    then show ?thesis by (simp add: t_def)
  next
    case (Some k)
    then have "\<forall>j<k. ds ! j \<noteq> ds ! k"
      using assms(1) by (auto simp: scan_inv_def list_all_length)
    then show ?thesis
      using Some by (auto simp: t_def) (meson not_le)
  qed
  show "NaN \<notin> set ds \<longrightarrow> (\<forall>j<length ds. ds ! t \<le> ds ! j) \<and> b = ds ! t"
  proof (intro impI)
    assume nn: "NaN \<notin> set ds"
    then have nn': "\<forall>j<length ds. ds ! j \<noteq> NaN"
      by (metis nth_mem)
    show "(\<forall>j<length ds. ds ! t \<le> ds ! j) \<and> b = ds ! t"
    proof (cases r)
      case None
      then have "b = PInf" "\<forall>j<length ds. ds ! j = NaN \<or> ds ! j = PInf"
        using assms(1) by (auto simp: scan_inv_def list_all_length not_less_PInf)
      then have "\<forall>j<length ds. ds ! j = PInf" "b = PInf" using nn' by auto
      then show ?thesis using \<open>t < length ds\<close> by simp
    next
      case (Some k)
      then have k: "k < length ds" "ds ! k = b" "\<forall>j<length ds. \<not> ds ! j < b"
        using assms(1) by (auto simp: scan_inv_def list_all_length)
      then show ?thesis
        using nn' Some by (auto simp: t_def intro!: jsnum_not_less_le)
    qed
  qed
qed

section \<open>A stroke whose points coincide\<close>

lemma foldl_invariant_set:
  assumes "P s" and "\<And>s j. j \<in> set js \<Longrightarrow> P s \<Longrightarrow> P (f s j)"
  shows "P (foldl f s js)"
  using assms by (induction js arbitrary: s) simp_all

lemma distance_self: "finite_point p \<Longrightarrow> distance p p = Fin 0"
  by (auto simp: finite_point_def distance_def Let_def elim!: isFin_cases)

lemma distance_NaN [simp]: "distance NaN_point q = NaN" "distance p NaN_point = NaN"
  by (simp_all add: distance_def NaN_point_def Let_def)

lemma OneDollar_pathLength_replicate:
  assumes "finite_point p"
  shows "OneDollar_pathLength (replicate m p) = Fin 0"
  unfolding OneDollar_pathLength_def
  by (rule foldl_invariant_set [where P = "\<lambda>d. d = Fin 0"])
     (simp_all add: distance_self [OF assms] less_imp_diff_less)

lemma OneDollar_resample_loop_NaN:
  "OneDollar_resample_loop I NaN points i newPoints = Some (newPoints, points)"
proof (induction "length points - i" arbitrary: i)
  case 0
  then show ?case by (subst OneDollar_resample_loop.simps) simp
next
  case (Suc k)
  then have "OneDollar_resample_loop I NaN points (i + 1) newPoints = Some (newPoints, points)"
    by simp
  then show ?case by (subst OneDollar_resample_loop.simps) (simp add: Let_def)
qed

lemma OneDollar_resample_replicate:
  assumes "finite_point p" "2 \<le> m"
  shows "OneDollar_resample (replicate m p) NumPoints =
     Some (Inr [p, NaN_point], p # NaN_point # replicate (m - 1) p)"
proof -
  obtain k where m: "m = Suc (Suc k)"
    using assms(2) by (metis Suc_le_D numeral_2_eq_2 Suc_le_mono)
  obtain a b where p: "x p = Fin a" "y p = Fin b"
    using assms(1) by (auto simp: finite_point_def elim!: isFin_cases)
  define pts where "pts = replicate m p"
  have pts: "pts = p # p # replicate k p"
    by (simp add: pts_def m)
  have I: "OneDollar_pathLength pts / Fin (real NumPoints - 1) = Fin 0"
    by (simp add: pts_def OneDollar_pathLength_replicate [OF assms(1)] NumPoints_def)
  have 1: "OneDollar_resample_loop (Fin 0) (Fin 0) (p # p # replicate k p) (Suc 0) [p] =
      OneDollar_resample_loop (Fin 0) (Fin 0) (p # NaN_point # p # replicate k p) (Suc (Suc 0))
        [p, NaN_point]"
    by (subst OneDollar_resample_loop.simps)
       (simp add: distance_self [OF assms(1)] Let_def p NaN_point_def [symmetric])
  have 2: "OneDollar_resample_loop (Fin 0) (Fin 0) (p # NaN_point # p # replicate k p) (Suc (Suc 0))
        [p, NaN_point] =
      OneDollar_resample_loop (Fin 0) NaN (p # NaN_point # p # replicate k p) (Suc (Suc (Suc 0)))
        [p, NaN_point]"
    by (subst OneDollar_resample_loop.simps) (simp add: Let_def)
  have L: "OneDollar_resample_loop (OneDollar_pathLength pts / Fin (real NumPoints - 1)) (Fin 0)
        pts 1 [p] = Some ([p, NaN_point], p # NaN_point # replicate (m - 1) p)"
    unfolding I by (simp add: pts 1 2 OneDollar_resample_loop_NaN m)
  have N: "int (length [p, NaN_point]) \<noteq> int NumPoints - 1"
    by (simp add: NumPoints_def)
  have "OneDollar_resample pts NumPoints =
     Some (Inr [p, NaN_point], p # NaN_point # replicate (m - 1) p)"
    unfolding OneDollar_resample_def Let_def
    by (subst (1 2) pts, simp only: list.case L option.case prod.case N if_False)
  then show ?thesis by (simp add: pts_def)
qed

lemma centroid_with_NaN: "centroid [p, NaN_point] = NaN_point"
  by (simp add: centroid_def NaN_point_def)

lemma rotateBy_NaN: "rotateBy points NaN = map (\<lambda>p. NaN_point) points"
  by (simp add: rotateBy_def NaN_point_def Let_def)

lemma OneDollar_scaleTo_NaN:
  "OneDollar_scaleTo (replicate k NaN_point) s = replicate k NaN_point"
  by (simp add: OneDollar_scaleTo_def NaN_point_def Let_def map_replicate_const)

lemma OneDollar_translateTo_NaN:
  "OneDollar_translateTo (replicate k NaN_point) pt = replicate k NaN_point"
  by (simp add: OneDollar_translateTo_def NaN_point_def Let_def map_replicate_const)

lemma OneDollar_normalize_replicate:
  assumes "finite_point p" "2 \<le> m"
  shows "OneDollar_normalize (replicate m p) =
     Some (Inr (replicate 2 NaN_point), p # NaN_point # replicate (m - 1) p)"
proof -
  have "indicativeAngle [p, NaN_point] = Inr NaN"
    by (simp add: indicativeAngle_def centroid_with_NaN) (simp add: NaN_point_def)
  moreover have "rotateBy [p, NaN_point] NaN = replicate 2 NaN_point"
    by (simp add: rotateBy_NaN numeral_2_eq_2)
  ultimately show ?thesis
    by (simp add: OneDollar_normalize_def OneDollar_resample_replicate [OF assms]
        OneDollar_scaleTo_NaN OneDollar_translateTo_NaN)
qed

lemma centroid_NaN: "0 < k \<Longrightarrow> centroid (replicate k NaN_point) = NaN_point"
proof -
  assume "0 < k"
  then obtain j where k: "k = Suc j" by (cases k) auto
  have "foldl (\<lambda>(sx, sy) p. (sx + x p, sy + y p)) (NaN, NaN) (replicate j NaN_point) = (NaN, NaN)"
    by (rule foldl_invariant [where P = "\<lambda>s. s = (NaN, NaN)"]) auto
  then show ?thesis
    by (simp add: centroid_def k NaN_point_def)
qed

lemma rotateBy_NaN_points:
  "rotateBy (replicate k NaN_point) r = replicate k NaN_point"
  by (simp add: rotateBy_def Let_def map_replicate_const) (simp add: NaN_point_def)

lemma pathDistance_NaN:
  assumes "0 < k" "k \<le> length pts2"
  shows "pathDistance (replicate k NaN_point) pts2 = Inr NaN"
proof -
  obtain j where k: "k = Suc j" using assms(1) by (cases k) auto
  have "[0..<k] = 0 # [1..<k]" using assms(1) by (simp add: upt_conv_Cons)
  moreover have "foldl (\<lambda>d i. d + distance (replicate k NaN_point ! i) (pts2 ! i)) NaN [1..<k] = NaN"
    by (rule foldl_invariant [where P = "\<lambda>d. d = NaN"]) auto
  ultimately show ?thesis
    using assms by (simp add: pathDistance_def)
qed

lemma distanceAtAngle_NaN:
  assumes "0 < k" "k \<le> length (Points T)"
  shows "distanceAtAngle (replicate k NaN_point) T r = Inr NaN"
  by (simp add: distanceAtAngle_def rotateBy_NaN_points pathDistance_NaN [OF assms])

lemma AngleRange_vals:
  "- AngleRange = Fin (- 45)" "AngleRange = Fin 45" "AnglePrecision = Fin 2"
  by (simp_all add: AngleRange_def AnglePrecision_def)

lemma distanceAtBestAngle_NaN:
  assumes "0 < k" "k \<le> length (Points T)"
  shows "distanceAtBestAngle (replicate k NaN_point) T (- AngleRange) AngleRange AnglePrecision =
     Some (Inr NaN)"
proof -
  have len: "length (replicate k NaN_point) \<le> length (Points T)" using assms(2) by simp
  obtain f1 f2 alpha' beta' where
    "distanceAtAngle (replicate k NaN_point) T (Fin (phi * alpha' + (1 - phi) * beta')) = Inr f1"
    "distanceAtAngle (replicate k NaN_point) T (Fin ((1 - phi) * alpha' + phi * beta')) = Inr f2"
    "distanceAtBestAngle (replicate k NaN_point) T (Fin (- 45)) (Fin 45) (Fin 2) =
       Some (Inr (Math_min f1 f2))"
    using distanceAtBestAngle_returns [OF len, of 2 "- 45" 45] by auto
  then show ?thesis
    by (simp add: distanceAtAngle_NaN [OF assms] AngleRange_vals)
qed

lemma OneDollar_check_loop_NaN:
  assumes "0 < k" "\<forall>T\<in>set Ts. k \<le> length (Points T)"
  shows "OneDollar_check_loop (replicate k NaN_point) Ts i b t = Some (Inr (b, t))"
  using assms(2)
  by (induction Ts arbitrary: i) (simp_all add: distanceAtBestAngle_NaN [OF assms(1)])

lemma HalfDiagonal_pos: "\<exists>h>0. HalfDiagonal = Fin h"
proof -
  have "HalfDiagonal = Fin (sqrt 125000 / 2)"
    by (simp add: HalfDiagonal_def Diagonal_def SquareSize_def)
  then show ?thesis by (intro exI [of _ "sqrt 125000 / 2"]) simp
qed

lemma OneDollar_check_degenerate:
  assumes "finite_point p" "2 \<le> m" "Templates \<noteq> []"
    and "\<forall>T\<in>set Templates. 2 \<le> length (Points T)"
  shows "OneDollar_check_points Templates (replicate m p) =
     Some (Inr \<lparr>name = Name (Templates ! 0), score = Fin 0\<rparr>,
           p # NaN_point # replicate (m - 1) p)"
proof -
  obtain h where h: "0 < h" "HalfDiagonal = Fin h" using HalfDiagonal_pos by blast
  have "Math_max (Fin 1 - PInf / HalfDiagonal) (Fin 0) = Fin 0"
    using h(1) by (simp add: h(2) minus_jsnum_def)
  then show ?thesis
    using assms(3)
    by (simp add: OneDollar_check_points_def OneDollar_normalize_replicate [OF assms(1,2)]
        OneDollar_check_loop_NaN [OF _ assms(4)] Let_def)
qed

section \<open>The loops of check as scans\<close>

lemma OneDollar_check_loop_scan:
  assumes "OneDollar_check_loop points Ts i b (case r of None \<Rightarrow> t0 | Some j \<Rightarrow> j) = Some (Inr (b', t'))"
  shows "\<exists>ds r'. length ds = length Ts
      \<and> (\<forall>j<length Ts. distanceAtBestAngle points (Ts ! j) (- AngleRange) AngleRange AnglePrecision
            = Some (Inr (ds ! j)))
      \<and> first_min_scan ds i b r = (b', r')
      \<and> t' = (case r' of None \<Rightarrow> t0 | Some j \<Rightarrow> j)"
  using assms
proof (induction Ts arbitrary: i b r)
  case Nil
  then show ?case by simp
next
  case (Cons T Ts)
  from Cons.prems obtain d where
    d: "distanceAtBestAngle points T (- AngleRange) AngleRange AnglePrecision = Some (Inr d)"
    by (auto split: option.splits sum.splits)
  have "\<exists>ds r'. length ds = length Ts
      \<and> (\<forall>j<length Ts. distanceAtBestAngle points (Ts ! j) (- AngleRange) AngleRange AnglePrecision
            = Some (Inr (ds ! j)))
      \<and> first_min_scan (d # ds) i b r = (b', r')
      \<and> t' = (case r' of None \<Rightarrow> t0 | Some j \<Rightarrow> j)"
  proof (cases "d < b")
    case True
    then have "OneDollar_check_loop points Ts (i + 1) d (case Some i of None \<Rightarrow> t0 | Some j \<Rightarrow> j)
        = Some (Inr (b', t'))"
      using Cons.prems d by simp
    from Cons.IH [OF this] show ?thesis using True by simp
  next
    case False
    then have "OneDollar_check_loop points Ts (i + 1) b (case r of None \<Rightarrow> t0 | Some j \<Rightarrow> j)
        = Some (Inr (b', t'))"
      using Cons.prems d by simp
    from Cons.IH [OF this] show ?thesis using False by simp
  qed
  then obtain ds r' where ds: "length ds = length Ts"
      "\<forall>j<length Ts. distanceAtBestAngle points (Ts ! j) (- AngleRange) AngleRange AnglePrecision
            = Some (Inr (ds ! j))"
      "first_min_scan (d # ds) i b r = (b', r')"
      "t' = (case r' of None \<Rightarrow> t0 | Some j \<Rightarrow> j)"
    by blast
  show ?case
  proof (intro exI [of _ "d # ds"] exI [of _ r'] conjI allI impI)
    fix j assume "j < length (T # Ts)"
    then show "distanceAtBestAngle points ((T # Ts) ! j) (- AngleRange) AngleRange AnglePrecision
        = Some (Inr ((d # ds) ! j))"
      using d ds(2) by (cases j) simp_all
  next
    show "first_min_scan (d # ds) i b r = (b', r')" by (rule ds(3))
  qed (simp_all add: ds(1,4))
qed

lemma cloudDistance_Fin:
  assumes "cloudDistance pts1 pts2 start minSoFar = Inr d"
  shows "\<exists>u\<ge>0. d = Fin u"
proof -
  obtain u where "cloudDistance_loop pts1 pts2 (length pts1) minSoFar
      (replicate (length pts1) False) (Fin 0) = Fin u" "0 \<le> u"
    using pruned_loop_agrees [of pts1 pts2 "length pts1" minSoFar "replicate (length pts1) False" 0]
    by blast
  then show ?thesis
    using assms by (auto simp: cloudDistance_def Let_def split: if_splits)
qed

lemma cloudMatch_agrees:
  assumes "cloudMatch points T minSoFar = Inr d"
  shows "\<exists>d' u. cloudMatch points T PInf = Inr d' \<and> d' = Fin u \<and> 0 \<le> u
     \<and> (d < minSoFar \<longleftrightarrow> d' < minSoFar) \<and> (d < minSoFar \<longrightarrow> d = d')"
proof -
  from assms cloudDistance_agrees [of points "Points T" 0 minSoFar]
  obtain e where e: "cloudDistance_unpruned points (Points T) = Inr e"
    "d < minSoFar \<longleftrightarrow> e < minSoFar" "d < minSoFar \<longrightarrow> d = e"
    by (auto simp: cloudMatch_def)
  from e(1) cloudDistance_agrees [of points "Points T" 0 PInf]
  obtain d' where d': "cloudDistance points (Points T) 0 PInf = Inr d'"
    "d' < PInf \<longrightarrow> d' = e"
    by auto
  obtain u where u: "d' = Fin u" "0 \<le> u"
    using cloudDistance_Fin [OF d'(1)] by blast
  then have "d' = e" using d'(2) by simp
  then show ?thesis
    using d'(1) e u by (auto simp: cloudMatch_def)
qed

lemma QDollar_check_loop_scan:
  assumes "QDollar_check_loop points Ts b (map_option ((!) store) r) = Inr (b', best')"
    and "store = pre @ Ts" "i = length pre"
  shows "\<exists>ds r'. length ds = length Ts
      \<and> (\<forall>j<length Ts. cloudMatch points (Ts ! j) PInf = Inr (ds ! j))
      \<and> NaN \<notin> set ds \<and> PInf \<notin> set ds
      \<and> first_min_scan ds i b r = (b', r')
      \<and> best' = map_option ((!) store) r'"
  using assms
proof (induction Ts arbitrary: i b r pre)
  case Nil
  then show ?case by simp
next
  case (Cons T Ts)
  from Cons.prems(1) obtain d where d: "cloudMatch points T b = Inr d"
    by (auto split: sum.splits)
  obtain d' u where d': "cloudMatch points T PInf = Inr d'" "d' = Fin u"
    "d < b \<longleftrightarrow> d' < b" "d < b \<longrightarrow> d = d'"
    using cloudMatch_agrees [OF d] by blast
  have store: "store = (pre @ [T]) @ Ts" "i + 1 = length (pre @ [T])" "store ! i = T"
    using Cons.prems(2,3) by simp_all
  have "\<exists>ds r'. length ds = length Ts
      \<and> (\<forall>j<length Ts. cloudMatch points (Ts ! j) PInf = Inr (ds ! j))
      \<and> NaN \<notin> set ds \<and> PInf \<notin> set ds
      \<and> first_min_scan (d' # ds) i b r = (b', r')
      \<and> best' = map_option ((!) store) r'"
  proof (cases "d < b")
    case True
    then have "QDollar_check_loop points Ts d' (map_option ((!) store) (Some i)) = Inr (b', best')"
      using Cons.prems(1) d d'(4) store(3) by simp
    from Cons.IH [OF this store(1,2)] show ?thesis using True d'(3) by simp
  next
    case False
    then have "QDollar_check_loop points Ts b (map_option ((!) store) r) = Inr (b', best')"
      using Cons.prems(1) d by simp
    from Cons.IH [OF this store(1,2)] show ?thesis using False d'(3) by simp
  qed
  then obtain ds r' where ds: "length ds = length Ts"
      "\<forall>j<length Ts. cloudMatch points (Ts ! j) PInf = Inr (ds ! j)"
      "NaN \<notin> set ds" "PInf \<notin> set ds"
      "first_min_scan (d' # ds) i b r = (b', r')"
      "best' = map_option ((!) store) r'"
    by blast
  show ?case
  proof (intro exI [of _ "d' # ds"] exI [of _ r'] conjI allI impI)
    fix j assume "j < length (T # Ts)"
    then show "cloudMatch points ((T # Ts) ! j) PInf = Inr ((d' # ds) ! j)"
      using d'(1) ds(2) by (cases j) simp_all
  next
    show "first_min_scan (d' # ds) i b r = (b', r')" by (rule ds(5))
  qed (simp_all add: ds(1,3,4,6) d'(2))
qed

lemma QDollar_single_point_normalize:
  "QDollar_normalize [\<lparr>x = Fin 1, y = Fin 2, id' = Some 1\<rparr>] =
     Some (Inr [\<lparr>x = NaN, y = NaN, id' = Some 1\<rparr>], [\<lparr>x = Fin 1, y = Fin 2, id' = Some 1\<rparr>])"
proof -
  have "QDollar_resample_loop I (Fin 0) [\<lparr>x = Fin 1, y = Fin 2, id' = Some 1\<rparr>] 1
      [\<lparr>x = Fin 1, y = Fin 2, id' = Some 1\<rparr>] =
      Some ([\<lparr>x = Fin 1, y = Fin 2, id' = Some 1\<rparr>], [\<lparr>x = Fin 1, y = Fin 2, id' = Some 1\<rparr>])" for I
    by (subst QDollar_resample_loop.simps) simp
  then show ?thesis
    by (simp add: QDollar_normalize_def QDollar_resample_def QDollar_scale_def
        QDollar_translateTo_def centroid_def NumPoints_def Let_def)
qed

lemma QDollar_single_point_check:
  "QDollar_check_points
     [\<lparr>Name = ''Dot'', Points = [\<lparr>x = Fin 0, y = Fin 0, id' = Some 1\<rparr>], LUT = []\<rparr>]
     [\<lparr>x = Fin 1, y = Fin 2, id' = Some 1\<rparr>] =
   Some (Inr \<lparr>name = ''Dot'', score = Fin 1\<rparr>, [\<lparr>x = Fin 1, y = Fin 2, id' = Some 1\<rparr>])"
  by (simp add: QDollar_check_points_def QDollar_single_point_normalize cloudMatch_def
      cloudDistance_def cloudDistance_inner_def sqrEuclideanDistance_def NumPoints_def Let_def
      minus_jsnum_def)

section \<open>What check returns\<close>

lemma OneDollar_check_points_result:
  assumes "OneDollar_check_points Templates points = Some (Inr res, m)"
  shows "\<exists>c b t ds r'. OneDollar_normalize points = Some (Inr c, m)
     \<and> OneDollar_check_loop c Templates 0 PInf 0 = Some (Inr (b, t))
     \<and> t < length Templates
     \<and> res = \<lparr>name = Name (Templates ! t), score = Math_max (Fin 1 - b / HalfDiagonal) (Fin 0)\<rparr>
     \<and> length ds = length Templates
     \<and> (\<forall>j<length Templates.
           distanceAtBestAngle c (Templates ! j) (- AngleRange) AngleRange AnglePrecision
             = Some (Inr (ds ! j)))
     \<and> scan_inv ds b r' \<and> t = (case r' of None \<Rightarrow> 0 | Some j \<Rightarrow> j)"
proof -
  from assms obtain c b t where c: "OneDollar_normalize points = Some (Inr c, m)"
    and l: "OneDollar_check_loop c Templates 0 PInf 0 = Some (Inr (b, t))"
    and t: "t < length Templates"
    and res: "res = \<lparr>name = Name (Templates ! t), score = Math_max (Fin 1 - b / HalfDiagonal) (Fin 0)\<rparr>"
    by (auto simp: OneDollar_check_points_def Let_def split: option.splits sum.splits if_splits)
  from l have "OneDollar_check_loop c Templates 0 PInf (case None of None \<Rightarrow> 0 | Some j \<Rightarrow> j)
      = Some (Inr (b, t))" by simp
  from OneDollar_check_loop_scan [OF this] obtain ds r' where ds: "length ds = length Templates"
    "\<forall>j<length Templates.
           distanceAtBestAngle c (Templates ! j) (- AngleRange) AngleRange AnglePrecision
             = Some (Inr (ds ! j))"
    "first_min_scan ds 0 PInf None = (b, r')" "t = (case r' of None \<Rightarrow> 0 | Some j \<Rightarrow> j)"
    by blast
  have "scan_inv ds b r'"
    using first_min_scan_inv [OF scan_inv_start, of 0 ds] ds(3) by simp
  then show ?thesis using c l t res ds by blast
qed

lemma QDollar_check_points_result:
  assumes "QDollar_check_points Templates points = Some (Inr res, m)"
  shows "\<exists>c b ds r'. QDollar_normalize points = Some (Inr c, m)
     \<and> res = (case r' of None \<Rightarrow> \<lparr>name = ''No match'', score = Fin 0\<rparr>
              | Some t \<Rightarrow> \<lparr>name = Name (Templates ! t),
                   score = Math_max (Fin 1 - (b / Fin (real NumPoints)) / Fin 0.5) (Fin 0)\<rparr>)
     \<and> length ds = length Templates
     \<and> (\<forall>j<length Templates. cloudMatch c (Templates ! j) PInf = Inr (ds ! j))
     \<and> NaN \<notin> set ds \<and> PInf \<notin> set ds
     \<and> scan_inv ds b r'"
proof -
  from assms obtain c b best where c: "QDollar_normalize points = Some (Inr c, m)"
    and l: "QDollar_check_loop c Templates PInf None = Inr (b, best)"
    and res: "res = (case best of None \<Rightarrow> \<lparr>name = ''No match'', score = Fin 0\<rparr>
              | Some T \<Rightarrow> \<lparr>name = Name T,
                   score = Math_max (Fin 1 - (b / Fin (real NumPoints)) / Fin 0.5) (Fin 0)\<rparr>)"
    by (auto simp: QDollar_check_points_def split: option.splits sum.splits)
  from l have "QDollar_check_loop c Templates PInf (map_option ((!) Templates) None) = Inr (b, best)"
    by simp
  from QDollar_check_loop_scan [OF this, of "[]" 0] obtain ds r' where
    ds: "length ds = length Templates"
    "\<forall>j<length Templates. cloudMatch c (Templates ! j) PInf = Inr (ds ! j)"
    "NaN \<notin> set ds" "PInf \<notin> set ds"
    "first_min_scan ds 0 PInf None = (b, r')" "best = map_option ((!) Templates) r'"
    by auto
  have "scan_inv ds b r'"
    using first_min_scan_inv [OF scan_inv_start, of 0 ds] ds(5) by simp
  moreover have "res = (case r' of None \<Rightarrow> \<lparr>name = ''No match'', score = Fin 0\<rparr>
              | Some t \<Rightarrow> \<lparr>name = Name (Templates ! t),
                   score = Math_max (Fin 1 - (b / Fin (real NumPoints)) / Fin 0.5) (Fin 0)\<rparr>)"
    using res ds(6) by (cases r') simp_all
  ultimately show ?thesis using c ds(1-4) by blast
qed

lemma scan_inv_found:
  assumes "scan_inv ds b r'" "ds \<noteq> []" "NaN \<notin> set ds" "PInf \<notin> set ds"
  shows "\<exists>t. r' = Some t"
proof (cases r')
  case None
  then have "\<not> hd ds < PInf"
    using assms(1,2) by (cases ds) (auto simp: scan_inv_def)
  then have "hd ds = NaN \<or> hd ds = PInf" by (simp add: not_less_PInf)
  then show ?thesis using assms(2,3,4) by (cases ds) auto
qed simp

lemma score_not_negative:
  assumes "b \<noteq> NaN" "0 < h"
  shows "Fin 0 \<le> Math_max (Fin 1 - b / Fin h) (Fin 0)"
  using assms by (cases b) (simp_all add: minus_jsnum_def)

lemma cloud_score_not_negative:
  assumes "b \<noteq> NaN" "0 < h" "0 < k"
  shows "Fin 0 \<le> Math_max (Fin 1 - (b / Fin k) / Fin h) (Fin 0)"
  using assms by (cases b) (simp_all add: minus_jsnum_def)

lemma example_check:
  "OneDollar_check_points example_store (replicate 2 example_point) =
     Some (Inr \<lparr>name = ''Line'', score = Fin 0\<rparr>,
           example_point # NaN_point # replicate 1 example_point)"
  using OneDollar_check_degenerate [of example_point 2 example_store]
  by (simp add: example_store_def example_point_def finite_point_def)

lemma example_qcheck:
  "QDollar_check_points example_qstore [example_qpoint] =
     Some (Inr \<lparr>name = ''Dot'', score = Fin 1\<rparr>, [example_qpoint])"
  unfolding example_qstore_def example_qpoint_def by (rule QDollar_single_point_check)

section \<open>The scale step on a degenerate bounding box\<close>

lemma finite_points_mem:
  assumes "finite_points ps" "q \<in> set ps"
  obtains u v where "x q = Fin u" "y q = Fin v"
proof -
  have "isFin (x q)" "isFin (y q)"
    using assms by (simp_all add: finite_points_def finite_point_def list_all_iff)
  then show ?thesis using that by (cases "x q"; cases "y q") simp_all
qed

lemma divide_by_zero_not_finite: "\<not> isFin (a * (b / Fin 0))"
  by (cases a; cases b) auto

lemma divide_zero_not_finite: "\<not> isFin (a / Fin 0)"
  by (cases a) auto

lemma OneDollar_scaleTo_zero_width:
  assumes "width (boundingBox points) = Fin 0"
  shows "list_all (\<lambda>q. \<not> isFin (x q)) (OneDollar_scaleTo points size')"
  using assms by (simp add: OneDollar_scaleTo_def Let_def list_all_iff divide_by_zero_not_finite)

lemma OneDollar_scaleTo_zero_height:
  assumes "height (boundingBox points) = Fin 0"
  shows "list_all (\<lambda>q. \<not> isFin (y q)) (OneDollar_scaleTo points size')"
  using assms by (simp add: OneDollar_scaleTo_def Let_def list_all_iff divide_by_zero_not_finite)

lemma QDollar_scale_boundingBox:
  "QDollar_scale points =
     (let B = boundingBox points; size' = Math_max (width B) (height B)
      in map (\<lambda>p. \<lparr>x = (x p - x B) / size', y = (y p - y B) / size', id' = id' p\<rparr>) points)"
  by (simp add: QDollar_scale_def boundingBox_def Let_def split: prod.splits)

lemma boundingBox_finite:
  assumes "finite_points points" "points \<noteq> []"
  shows "\<exists>a b c d. boundingBox points = \<lparr>x = Fin a, y = Fin b, width = Fin c, height = Fin d\<rparr>
     \<and> 0 \<le> c \<and> 0 \<le> d"
proof -
  obtain p ps where pts: "points = p # ps" using assms(2) by (cases points) auto
  obtain a b where p: "x p = Fin a" "y p = Fin b"
    using finite_points_mem [OF assms(1), of p] by (auto simp: pts)
  have ps: "\<exists>a b. x q = Fin a \<and> y q = Fin b" if q: "q \<in> set ps" for q
    using finite_points_mem [OF assms(1), of q] q by (auto simp: pts)
  let ?f = "\<lambda>(minX, maxX, minY, maxY) p.
      (Math_min minX (x p), Math_max maxX (x p), Math_min minY (y p), Math_max maxY (y p))"
  have "\<exists>a' b' c' d'. foldl ?f (Fin a, Fin a, Fin b, Fin b) ps = (Fin a', Fin b', Fin c', Fin d')
      \<and> a' \<le> b' \<and> c' \<le> d'"
    by (rule foldl_invariant_set [where P = "\<lambda>s. \<exists>a' b' c' d'. s = (Fin a', Fin b', Fin c', Fin d')
      \<and> a' \<le> b' \<and> c' \<le> d'"])
       (use ps in fastforce)+
  then show ?thesis
    by (auto simp: boundingBox_def pts p)
qed

lemma QDollar_scale_finite:
  assumes "finite_points points" "points \<noteq> []"
    and "width (boundingBox points) \<noteq> Fin 0 \<or> height (boundingBox points) \<noteq> Fin 0"
  shows "finite_points (QDollar_scale points)"
proof -
  obtain a b c d where B: "boundingBox points = \<lparr>x = Fin a, y = Fin b, width = Fin c, height = Fin d\<rparr>"
    and cd: "0 \<le> c" "0 \<le> d"
    using boundingBox_finite [OF assms(1,2)] by blast
  obtain s where s: "Math_max (Fin c) (Fin d) = Fin s" "s \<noteq> 0"
    using assms(3) cd by (cases "c < d") (auto simp: B)
  have "finite_point \<lparr>x = (x q - Fin a) / Fin s, y = (y q - Fin b) / Fin s, id' = id' q\<rparr>"
    if q: "q \<in> set points" for q
  proof -
    obtain u v where "x q = Fin u" "y q = Fin v"
      using finite_points_mem [OF assms(1) q] .
    then show ?thesis using s(2) by (simp add: finite_point_def)
  qed
  then show ?thesis
    unfolding QDollar_scale_boundingBox Let_def B
    by (simp del: Math_max.simps add: s(1) finite_points_def list_all_iff)
qed

lemma QDollar_scale_point:
  assumes "width (boundingBox points) = Fin 0" "height (boundingBox points) = Fin 0"
  shows "list_all (\<lambda>q. \<not> isFin (x q) \<and> \<not> isFin (y q)) (QDollar_scale points)"
  unfolding QDollar_scale_boundingBox Let_def assms
  by (simp add: list_all_iff divide_zero_not_finite)

lemma centroid_fold_fst:
  "fst (foldl (\<lambda>(sx, sy) p. (sx + x p, sy + y p)) (a, b) ps) = foldl (\<lambda>s p. s + x p) a ps"
  by (induction ps arbitrary: a b) simp_all

lemma centroid_fold_snd:
  "snd (foldl (\<lambda>(sx, sy) p. (sx + x p, sy + y p)) (a, b) ps) = foldl (\<lambda>s p. s + y p) b ps"
  by (induction ps arbitrary: a b) simp_all

lemma centroid_x: "x (centroid ps) = foldl (\<lambda>s p. s + x p) (Fin 0) ps / Fin (real (length ps))"
  using centroid_fold_fst [of "Fin 0" "Fin 0" ps]
  by (auto simp: centroid_def split: prod.splits)

lemma centroid_y: "y (centroid ps) = foldl (\<lambda>s p. s + y p) (Fin 0) ps / Fin (real (length ps))"
  using centroid_fold_snd [of "Fin 0" "Fin 0" ps]
  by (auto simp: centroid_def split: prod.splits)

lemma nonfinite_sum:
  assumes "\<not> isFin acc" "\<forall>t\<in>set ts. \<not> isFin (g t)"
  shows "foldl (\<lambda>s t. s + g t) acc ts = NaN
     \<or> (foldl (\<lambda>s t. s + g t) acc ts = acc \<and> (\<forall>t\<in>set ts. g t = acc))"
  using assms
proof (induction ts arbitrary: acc)
  case Nil
  then show ?case by simp
next
  case (Cons t ts)
  have t: "\<not> isFin (g t)" using Cons.prems(2) by simp
  show ?case
  proof (cases "g t = acc")
    case True
    then have "acc + g t = acc \<or> acc + g t = NaN" using t by (cases acc) auto
    then show ?thesis
    proof
      assume "acc + g t = acc"
      then show ?thesis using Cons.IH [of acc] Cons.prems True by auto
    next
      assume n: "acc + g t = NaN"
      have "foldl (\<lambda>s t. s + g t) NaN ts = NaN"
        by (rule foldl_invariant [where P = "\<lambda>s. s = NaN"]) auto
      then show ?thesis using n by simp
    qed
  next
    case False
    then have n: "acc + g t = NaN" using t Cons.prems(1) by (cases acc; cases "g t") auto
    have "foldl (\<lambda>s t. s + g t) NaN ts = NaN"
      by (rule foldl_invariant [where P = "\<lambda>s. s = NaN"]) auto
    then show ?thesis using n by simp
  qed
qed

lemma nonfinite_mean:
  assumes "ts \<noteq> []" "\<forall>t\<in>set ts. \<not> isFin (g t)" "isFin d"
  shows "\<forall>t\<in>set ts. g t + d - foldl (\<lambda>s t. s + g t) (Fin 0) ts / Fin (real (length ts)) = NaN"
proof -
  obtain t ts' where ts: "ts = t # ts'" using assms(1) by (cases ts) auto
  have t: "\<not> isFin (g t)" and ts': "\<forall>t\<in>set ts'. \<not> isFin (g t)"
    using assms(2) by (simp_all add: ts)
  have 0: "Fin 0 + g t = g t" using t by (cases "g t") auto
  obtain e where d: "d = Fin e" using assms(3) by (cases d) auto
  let ?R = "foldl (\<lambda>s t. s + g t) (g t) ts'"
  have n: "0 < real (length ts)" by (simp add: ts)
  from nonfinite_sum [OF t ts'] show ?thesis
  proof
    assume "?R = NaN"
    then show ?thesis by (simp add: ts 0)
  next
    assume r: "?R = g t \<and> (\<forall>u\<in>set ts'. g u = g t)"
    have "g t + d - g t / Fin (real (length ts)) = NaN"
      using t n by (cases "g t") (auto simp: d minus_jsnum_def)
    then show ?thesis using r by (auto simp: ts 0)
  qed
qed

lemma OneDollar_translateTo_nonfinite_x:
  assumes "points \<noteq> []" "list_all (\<lambda>q. \<not> isFin (x q)) points" "isFin (x pt)"
  shows "list_all (\<lambda>q. x q = NaN) (OneDollar_translateTo points pt)"
  using nonfinite_mean [of points x "x pt"] assms
  by (simp add: OneDollar_translateTo_def Let_def list_all_iff centroid_x)

lemma OneDollar_translateTo_nonfinite_y:
  assumes "points \<noteq> []" "list_all (\<lambda>q. \<not> isFin (y q)) points" "isFin (y pt)"
  shows "list_all (\<lambda>q. y q = NaN) (OneDollar_translateTo points pt)"
  using nonfinite_mean [of points y "y pt"] assms
  by (simp add: OneDollar_translateTo_def Let_def list_all_iff centroid_y)

lemma OneDollar_scaleTo_Nil [simp]: "OneDollar_scaleTo points s = [] \<longleftrightarrow> points = []"
  by (simp add: OneDollar_scaleTo_def Let_def)

section \<open>Resampling a stroke of positive length\<close>

lemma distance_finite:
  assumes "finite_point p" "finite_point q"
  shows "distance p q = Fin (rdist p q)"
proof -
  obtain a b c d where "x p = Fin a" "y p = Fin b" "x q = Fin c" "y q = Fin d"
    using assms by (auto simp: finite_point_def elim!: isFin_cases)
  then show ?thesis
    by (simp add: distance_def rdist_def Let_def not_sum_squares_lt_zero)
qed

lemma rdist_nonneg [simp]: "0 \<le> rdist p q"
  by (simp add: rdist_def)

lemma rpath_nonneg [simp]: "0 \<le> rpath ps"
  by (induction ps rule: rpath.induct) simp_all

lemma finite_points_nth: "finite_points ps \<Longrightarrow> i < length ps \<Longrightarrow> finite_point (ps ! i)"
  by (simp add: finite_points_def list_all_length)

lemma rpath_drop:
  assumes "1 \<le> k" "k < length ps"
  shows "rpath (drop (k - 1) ps) = rdist (ps ! (k - 1)) (ps ! k) + rpath (drop k ps)"
proof -
  obtain j where k: "k = Suc j" using assms(1) by (cases k) auto
  have "drop j ps = ps ! j # drop (Suc j) ps"
    using assms(2) k by (intro Cons_nth_drop_Suc [symmetric]) simp
  moreover have "drop (Suc j) ps = ps ! Suc j # drop (Suc (Suc j)) ps"
    using assms(2) k by (intro Cons_nth_drop_Suc [symmetric]) simp
  ultimately show ?thesis by (simp add: k)
qed

lemma rpath_drop_last:
  assumes "1 \<le> k" "length ps \<le> k"
  shows "rpath (drop (k - 1) ps) = 0"
proof -
  obtain j where k: "k = Suc j" using assms(1) by (cases k) auto
  show ?thesis
  proof (cases "j < length ps")
    case True
    then have "drop j ps = ps ! j # drop (Suc j) ps"
      by (intro Cons_nth_drop_Suc [symmetric])
    then show ?thesis using assms(2) by (simp add: k)
  next
    case False
    then show ?thesis by (simp add: k)
  qed
qed

lemma OneDollar_pathLength_from:
  assumes "finite_points ps" "1 \<le> k"
  shows "foldl (\<lambda>d i. d + distance (ps ! (i - 1)) (ps ! i)) (Fin a) [k..<length ps] =
     Fin (a + rpath (drop (k - 1) ps))"
  using assms(2)
proof (induction "length ps - k" arbitrary: k a)
  case 0
  then show ?case using rpath_drop_last [of k ps] by simp
next
  case (Suc n)
  then have k: "k < length ps" by simp
  have d: "distance (ps ! (k - 1)) (ps ! k) = Fin (rdist (ps ! (k - 1)) (ps ! k))"
    using k by (intro distance_finite finite_points_nth [OF assms(1)]) simp_all
  have n: "n = length ps - Suc k" using Suc.hyps(2) by simp
  have up: "[k..<length ps] = k # [Suc k..<length ps]"
    using k by (rule upt_conv_Cons)
  have "foldl (\<lambda>d i. d + distance (ps ! (i - 1)) (ps ! i)) (Fin a) [k..<length ps] =
      foldl (\<lambda>d i. d + distance (ps ! (i - 1)) (ps ! i))
        (Fin (a + rdist (ps ! (k - 1)) (ps ! k))) [Suc k..<length ps]"
    unfolding up by (simp only: foldl_Cons d plus_jsnum.simps)
  also have "\<dots> = Fin (a + rdist (ps ! (k - 1)) (ps ! k) + rpath (drop (Suc k - 1) ps))"
    by (rule Suc.hyps(1) [OF n]) simp
  also have "\<dots> = Fin (a + rpath (drop (k - 1) ps))"
    using rpath_drop [OF Suc.prems k] by simp
  finally show ?case .
qed

lemma OneDollar_pathLength_finite:
  assumes "finite_points ps"
  shows "OneDollar_pathLength ps = Fin (rpath ps)"
  using OneDollar_pathLength_from [OF assms, of 1 0] by (simp add: OneDollar_pathLength_def)

text \<open>The point interpolated on a segment, and its distance to the end of the segment.\<close>

lemma interpolated_distance:
  fixes a b c d t :: real
  assumes "0 \<le> t" "t \<le> 1"
  shows "sqrt ((a + t * (c - a) - c) * (a + t * (c - a) - c)
             + (b + t * (d - b) - d) * (b + t * (d - b) - d))
       = (1 - t) * sqrt ((a - c) * (a - c) + (b - d) * (b - d))"
proof -
  have "(a + t * (c - a) - c) * (a + t * (c - a) - c) + (b + t * (d - b) - d) * (b + t * (d - b) - d)
      = (1 - t)\<^sup>2 * ((a - c) * (a - c) + (b - d) * (b - d))"
    by (simp add: power2_eq_square algebra_simps)
  then show ?thesis
    using assms by (simp add: real_sqrt_mult)
qed

lemma finite_points_splice:
  assumes "finite_points ps" "finite_point q"
  shows "finite_points (take i ps @ q # drop i ps)"
  using assms by (auto simp: finite_points_def list_all_iff dest: in_set_takeD in_set_dropD)

lemma multiple_below_unit:
  fixes iota :: real
  assumes "0 < iota" "real m * iota < iota"
  shows "m = 0"
proof (rule ccontr)
  assume "m \<noteq> 0"
  then have "1 \<le> real m" by simp
  then have "iota \<le> real m * iota" using assms(1) by simp
  then show False using assms(2) by simp
qed

lemma multiple_at_least_unit:
  fixes iota :: real
  assumes "0 < iota" "iota \<le> real m * iota"
  shows "\<exists>m'. m = Suc m'"
proof (cases m)
  case 0
  then show ?thesis using assms by simp
qed simp

lemma OneDollar_resample_loop_count:
  assumes "finite_points points" "0 < iota" "0 \<le> delta" "delta < iota"
    and "i = Suc j" "i \<le> length points"
    and "delta + rpath (drop j points) = real m * iota"
  shows "\<exists>np pts'.
      OneDollar_resample_loop (Fin iota) (Fin delta) points i newPoints = Some (np, pts')
      \<and> length np = length newPoints + m \<and> length pts' = length points + m
      \<and> finite_points pts'"
  using assms
proof (induction "m + (length points - i)" arbitrary: m points i j delta newPoints rule: less_induct)
  case less
  note fin = less.prems(1) and iota = less.prems(2) and delta = less.prems(3,4)
    and i = less.prems(5,6) and total = less.prems(7)
  show ?case
  proof (cases "i < length points")
    case False
    then have "rpath (drop j points) = 0"
      using rpath_drop_last [of i points] i by simp
    then have "real m * iota < iota" using total delta by simp
    then have "m = 0" using multiple_below_unit [OF iota] by blast
    then show ?thesis
      using False fin by (subst OneDollar_resample_loop.simps) simp
  next
    case True
    define d where "d = rdist (points ! j) (points ! i)"
    have fp: "finite_point (points ! j)" "finite_point (points ! i)"
      using True i by (auto intro!: finite_points_nth [OF fin])
    have dist: "distance (points ! j) (points ! i) = Fin d"
      unfolding d_def by (rule distance_finite [OF fp])
    have d0: "0 \<le> d" by (simp add: d_def)
    have tot: "delta + d + rpath (drop i points) = real m * iota"
      using rpath_drop [of i points] True i total by (simp add: d_def)
    show ?thesis
    proof (cases "iota \<le> delta + d")
      case far: True
      have dpos: "0 < d" using far delta by simp
      define t where "t = (iota - delta) / d"
      have t: "0 \<le> t" "t \<le> 1"
        using far delta dpos by (simp_all add: t_def)
      obtain a b c e where co: "x (points ! j) = Fin a" "y (points ! j) = Fin b"
        "x (points ! i) = Fin c" "y (points ! i) = Fin e"
        using fp by (auto simp: finite_point_def elim!: isFin_cases)
      define q :: point where "q = \<lparr>x = Fin (a + t * (c - a)), y = Fin (b + t * (e - b))\<rparr>"
      define points' where "points' = take i points @ q # drop i points"
      have fq: "finite_point q" by (simp add: q_def finite_point_def)
      have fin': "finite_points points'"
        unfolding points'_def by (rule finite_points_splice [OF fin fq])
      have len': "length points' = Suc (length points)"
        using True by (simp add: points'_def)
      have dq: "rdist q (points ! i) = d - (iota - delta)"
      proof -
        have "rdist q (points ! i) = (1 - t) * d"
          unfolding rdist_def d_def q_def co
          using interpolated_distance [OF t, of a c b e] by simp
        also have "\<dots> = d - (iota - delta)"
          using dpos by (simp add: t_def field_simps)
        finally show ?thesis .
      qed
      have "iota \<le> real m * iota" using tot far rpath_nonneg [of "drop i points"] by linarith
      then obtain m' where m: "m = Suc m'" using multiple_at_least_unit [OF iota] by blast
      have drop': "drop i points' = q # points ! i # drop (Suc i) points"
        using True by (simp add: points'_def Cons_nth_drop_Suc)
      have total': "0 + rpath (drop i points') = real m' * iota"
      proof -
        have "rpath (drop i points') = rdist q (points ! i) + rpath (drop i points)"
          using True by (simp add: drop' Cons_nth_drop_Suc [symmetric])
        then show ?thesis using dq tot by (simp add: m algebra_simps)
      qed
      have less: "m' + (length points' - Suc i) < m + (length points - i)"
        using True by (simp add: m len')
      obtain np pts' where r:
        "OneDollar_resample_loop (Fin iota) (Fin 0) points' (Suc i) (newPoints @ [q]) = Some (np, pts')"
        "length np = length (newPoints @ [q]) + m'" "length pts' = length points' + m'"
        "finite_points pts'"
        using less.hyps [OF less fin' iota _ iota refl _ total', of "newPoints @ [q]"] True len'
        by auto
      have step: "OneDollar_resample_loop (Fin iota) (Fin delta) points i newPoints =
          OneDollar_resample_loop (Fin iota) (Fin 0) points' (Suc i) (newPoints @ [q])"
        using True far dpos
        by (subst OneDollar_resample_loop.simps)
           (simp add: i(1) dist [unfolded i(1)] co [unfolded i(1)] Let_def q_def t_def points'_def)
      show ?thesis
        using r by (simp add: step m len')
    next
      case near: False
      have less: "m + (length points - Suc i) < m + (length points - i)"
        using True by simp
      have total': "(delta + d) + rpath (drop i points) = real m * iota"
        using tot by simp
      obtain np pts' where r:
        "OneDollar_resample_loop (Fin iota) (Fin (delta + d)) points (Suc i) newPoints = Some (np, pts')"
        "length np = length newPoints + m" "length pts' = length points + m"
        "finite_points pts'"
        using less.hyps [OF less fin iota _ _ refl _ total', of newPoints] True near delta d0
        by auto
      have step: "OneDollar_resample_loop (Fin iota) (Fin delta) points i newPoints =
          OneDollar_resample_loop (Fin iota) (Fin (delta + d)) points (Suc i) newPoints"
        using True near
        by (subst OneDollar_resample_loop.simps) (simp add: i(1) dist [unfolded i(1)] Let_def)
      show ?thesis
        using r by (simp add: step)
    qed
  qed
qed

lemma OneDollar_resample_count:
  assumes "finite_points points" "0 < rpath points" "2 \<le> n"
  shows "\<exists>np pts'. OneDollar_resample points n = Some (Inr np, pts')
      \<and> length np = n \<and> length pts' = length points + (n - 1) \<and> finite_points pts'"
proof -
  obtain p0 rest where pts: "points = p0 # rest"
    using assms(2) by (cases points) auto
  define iota where "iota = rpath points / (real n - 1)"
  have n: "0 < real n - 1" using assms(3) by simp
  have iota: "0 < iota" using assms(2) n by (simp add: iota_def)
  have I: "OneDollar_pathLength points / Fin (real n - 1) = Fin iota"
    using n by (simp add: OneDollar_pathLength_finite [OF assms(1)] iota_def)
  have total: "0 + rpath (drop 0 points) = real (n - 1) * iota"
    using n assms(3) by (simp add: iota_def of_nat_diff)
  obtain np pts' where r:
    "OneDollar_resample_loop (Fin iota) (Fin 0) points (Suc 0) [p0] = Some (np, pts')"
    "length np = length [p0] + (n - 1)" "length pts' = length points + (n - 1)"
    "finite_points pts'"
    using OneDollar_resample_loop_count [OF assms(1) iota _ iota refl _ total, of "[p0]"]
    by (auto simp: pts)
  have len: "length np = n" using r(2) assms(3) by simp
  then have ne: "int (length np) \<noteq> int n - 1" by simp
  have "OneDollar_resample points n = Some (Inr np, pts')"
    unfolding OneDollar_resample_def Let_def I
    by (subst (1 2) pts, simp only: list.case One_nat_def r(1) option.case prod.case ne if_False)
  then show ?thesis using len r(3,4) by blast
qed

lemma qpath_nonneg [simp]: "0 \<le> qpath ps"
  by (induction ps rule: qpath.induct) simp_all

lemma qpath_drop:
  assumes "1 \<le> k" "k < length ps"
  shows "qpath (drop (k - 1) ps) =
     (if id' (ps ! k) = id' (ps ! (k - 1)) then rdist (ps ! (k - 1)) (ps ! k) else 0)
       + qpath (drop k ps)"
proof -
  obtain j where k: "k = Suc j" using assms(1) by (cases k) auto
  have "drop j ps = ps ! j # drop (Suc j) ps"
    using assms(2) k by (intro Cons_nth_drop_Suc [symmetric]) simp
  moreover have "drop (Suc j) ps = ps ! Suc j # drop (Suc (Suc j)) ps"
    using assms(2) k by (intro Cons_nth_drop_Suc [symmetric]) simp
  ultimately show ?thesis by (simp add: k)
qed

lemma qpath_drop_last:
  assumes "1 \<le> k" "length ps \<le> k"
  shows "qpath (drop (k - 1) ps) = 0"
proof -
  obtain j where k: "k = Suc j" using assms(1) by (cases k) auto
  show ?thesis
  proof (cases "j < length ps")
    case True
    then have "drop j ps = ps ! j # drop (Suc j) ps"
      by (intro Cons_nth_drop_Suc [symmetric])
    then show ?thesis using assms(2) by (simp add: k)
  next
    case False
    then show ?thesis by (simp add: k)
  qed
qed

lemma QDollar_pathLength_from:
  assumes "finite_points ps" "1 \<le> k"
  shows "foldl (\<lambda>d i. if id' (ps ! i) = id' (ps ! (i - 1))
                        then d + distance (ps ! (i - 1)) (ps ! i) else d) (Fin a) [k..<length ps] =
     Fin (a + qpath (drop (k - 1) ps))"
  using assms(2)
proof (induction "length ps - k" arbitrary: k a)
  case 0
  then show ?case using qpath_drop_last [of k ps] by simp
next
  case (Suc n)
  then have k: "k < length ps" by simp
  have d: "distance (ps ! (k - 1)) (ps ! k) = Fin (rdist (ps ! (k - 1)) (ps ! k))"
    using k by (intro distance_finite finite_points_nth [OF assms(1)]) simp_all
  have n: "n = length ps - Suc k" using Suc.hyps(2) by simp
  have up: "[k..<length ps] = k # [Suc k..<length ps]"
    using k by (rule upt_conv_Cons)
  let ?f = "\<lambda>d i. if id' (ps ! i) = id' (ps ! (i - 1))
                        then d + distance (ps ! (i - 1)) (ps ! i) else d"
  let ?s = "if id' (ps ! k) = id' (ps ! (k - 1)) then rdist (ps ! (k - 1)) (ps ! k) else 0"
  have "foldl ?f (Fin a) [k..<length ps] = foldl ?f (Fin (a + ?s)) [Suc k..<length ps]"
    unfolding up by (simp only: foldl_Cons d plus_jsnum.simps if_distrib [of Fin] add_0_right
        if_distrib [of "\<lambda>u. a + u"] cong: if_cong)
  also have "\<dots> = Fin (a + ?s + qpath (drop (Suc k - 1) ps))"
    by (rule Suc.hyps(1) [OF n]) simp
  also have "\<dots> = Fin (a + qpath (drop (k - 1) ps))"
    using qpath_drop [OF Suc.prems k] by simp
  finally show ?case .
qed

lemma QDollar_pathLength_finite:
  assumes "finite_points ps"
  shows "QDollar_pathLength ps = Fin (qpath ps)"
  using QDollar_pathLength_from [OF assms, of 1 0] by (simp add: QDollar_pathLength_def)

lemma QDollar_resample_loop_count:
  assumes "finite_points points" "0 < iota" "0 \<le> delta" "delta < iota"
    and "i = Suc j" "i \<le> length points"
    and "delta + qpath (drop j points) = real m * iota"
  shows "\<exists>np pts'.
      QDollar_resample_loop (Fin iota) (Fin delta) points i newPoints = Some (np, pts')
      \<and> length np = length newPoints + m \<and> length pts' = length points + m
      \<and> finite_points pts'"
  using assms
proof (induction "m + (length points - i)" arbitrary: m points i j delta newPoints rule: less_induct)
  case less
  note fin = less.prems(1) and iota = less.prems(2) and delta = less.prems(3,4)
    and i = less.prems(5,6) and total = less.prems(7)
  show ?case
  proof (cases "i < length points")
    case False
    then have "qpath (drop j points) = 0"
      using qpath_drop_last [of i points] i by simp
    then have "real m * iota < iota" using total delta by simp
    then have "m = 0" using multiple_below_unit [OF iota] by blast
    then show ?thesis
      using False fin by (subst QDollar_resample_loop.simps) simp
  next
    case True
    show ?thesis
    proof (cases "id' (points ! i) = id' (points ! j)")
      case other: False
      have less: "m + (length points - Suc i) < m + (length points - i)"
        using True by simp
      have total': "delta + qpath (drop i points) = real m * iota"
        using qpath_drop [of i points] True i total other by simp
      obtain np pts' where r:
        "QDollar_resample_loop (Fin iota) (Fin delta) points (Suc i) newPoints = Some (np, pts')"
        "length np = length newPoints + m" "length pts' = length points + m"
        "finite_points pts'"
        using less.hyps [OF less fin iota delta refl _ total', of newPoints] True
        by auto
      have step: "QDollar_resample_loop (Fin iota) (Fin delta) points i newPoints =
          QDollar_resample_loop (Fin iota) (Fin delta) points (Suc i) newPoints"
        using True other
        by (subst QDollar_resample_loop.simps) (simp add: i(1))
      show ?thesis
        using r by (simp add: step)
    next
      case same: True
      define d where "d = rdist (points ! j) (points ! i)"
      have fp: "finite_point (points ! j)" "finite_point (points ! i)"
        using True i by (auto intro!: finite_points_nth [OF fin])
      have dist: "distance (points ! j) (points ! i) = Fin d"
        unfolding d_def by (rule distance_finite [OF fp])
      have d0: "0 \<le> d" by (simp add: d_def)
      have tot: "delta + d + qpath (drop i points) = real m * iota"
        using qpath_drop [of i points] True i total same by (simp add: d_def)
      show ?thesis
      proof (cases "iota \<le> delta + d")
        case far: True
        have dpos: "0 < d" using far delta by simp
        define t where "t = (iota - delta) / d"
        have t: "0 \<le> t" "t \<le> 1"
          using far delta dpos by (simp_all add: t_def)
        obtain a b c e where co: "x (points ! j) = Fin a" "y (points ! j) = Fin b"
          "x (points ! i) = Fin c" "y (points ! i) = Fin e"
          using fp by (auto simp: finite_point_def elim!: isFin_cases)
        define q :: qpoint where
          "q = \<lparr>x = Fin (a + t * (c - a)), y = Fin (b + t * (e - b)), id' = id' (points ! i)\<rparr>"
        define points' where "points' = take i points @ q # drop i points"
        have fq: "finite_point q" by (simp add: q_def finite_point_def)
        have fin': "finite_points points'"
          unfolding points'_def by (rule finite_points_splice [OF fin fq])
        have len': "length points' = Suc (length points)"
          using True by (simp add: points'_def)
        have dq: "rdist q (points ! i) = d - (iota - delta)"
        proof -
          have "rdist q (points ! i) = (1 - t) * d"
            unfolding rdist_def d_def q_def co
            using interpolated_distance [OF t, of a c b e] by simp
          also have "\<dots> = d - (iota - delta)"
            using dpos by (simp add: t_def field_simps)
          finally show ?thesis .
        qed
        have "iota \<le> real m * iota" using tot far qpath_nonneg [of "drop i points"] by linarith
        then obtain m' where m: "m = Suc m'" using multiple_at_least_unit [OF iota] by blast
        have drop': "drop i points' = q # points ! i # drop (Suc i) points"
          using True by (simp add: points'_def Cons_nth_drop_Suc)
        have total': "0 + qpath (drop i points') = real m' * iota"
        proof -
          have "qpath (drop i points') = rdist q (points ! i) + qpath (drop i points)"
            using True by (simp add: drop' Cons_nth_drop_Suc [symmetric] q_def)
          then show ?thesis using dq tot by (simp add: m algebra_simps)
        qed
        have less: "m' + (length points' - Suc i) < m + (length points - i)"
          using True by (simp add: m len')
        obtain np pts' where r:
          "QDollar_resample_loop (Fin iota) (Fin 0) points' (Suc i) (newPoints @ [q]) = Some (np, pts')"
          "length np = length (newPoints @ [q]) + m'" "length pts' = length points' + m'"
          "finite_points pts'"
          using less.hyps [OF less fin' iota _ iota refl _ total', of "newPoints @ [q]"] True len'
          by auto
        have step: "QDollar_resample_loop (Fin iota) (Fin delta) points i newPoints =
            QDollar_resample_loop (Fin iota) (Fin 0) points' (Suc i) (newPoints @ [q])"
          using True far dpos same
          by (subst QDollar_resample_loop.simps)
             (simp add: i(1) dist [unfolded i(1)] co [unfolded i(1)] Let_def q_def t_def points'_def)
        show ?thesis
          using r by (simp add: step m len')
      next
        case near: False
        have less: "m + (length points - Suc i) < m + (length points - i)"
          using True by simp
        have total': "(delta + d) + qpath (drop i points) = real m * iota"
          using tot by simp
        obtain np pts' where r:
          "QDollar_resample_loop (Fin iota) (Fin (delta + d)) points (Suc i) newPoints = Some (np, pts')"
          "length np = length newPoints + m" "length pts' = length points + m"
          "finite_points pts'"
          using less.hyps [OF less fin iota _ _ refl _ total', of newPoints] True near delta d0
          by auto
        have step: "QDollar_resample_loop (Fin iota) (Fin delta) points i newPoints =
            QDollar_resample_loop (Fin iota) (Fin (delta + d)) points (Suc i) newPoints"
          using True near same
          by (subst QDollar_resample_loop.simps) (simp add: i(1) dist [unfolded i(1)] Let_def)
        show ?thesis
          using r by (simp add: step)
      qed
    qed
  qed
qed

lemma QDollar_resample_count:
  assumes "finite_points points" "0 < qpath points" "2 \<le> n"
  shows "\<exists>np pts'. QDollar_resample points n = Some (Inr np, pts')
      \<and> length np = n \<and> length pts' = length points + (n - 1) \<and> finite_points pts'"
proof -
  obtain p0 rest where pts: "points = p0 # rest"
    using assms(2) by (cases points) auto
  define iota where "iota = qpath points / (real n - 1)"
  have n: "0 < real n - 1" using assms(3) by simp
  have iota: "0 < iota" using assms(2) n by (simp add: iota_def)
  have I: "QDollar_pathLength points / Fin (real n - 1) = Fin iota"
    using n by (simp add: QDollar_pathLength_finite [OF assms(1)] iota_def)
  have total: "0 + qpath (drop 0 points) = real (n - 1) * iota"
    using n assms(3) by (simp add: iota_def of_nat_diff)
  obtain np pts' where r:
    "QDollar_resample_loop (Fin iota) (Fin 0) points (Suc 0) [p0] = Some (np, pts')"
    "length np = length [p0] + (n - 1)" "length pts' = length points + (n - 1)"
    "finite_points pts'"
    using QDollar_resample_loop_count [OF assms(1) iota _ iota refl _ total, of "[p0]"]
    by (auto simp: pts)
  have len: "length np = n" using r(2) assms(3) by simp
  then have ne: "int (length np) \<noteq> int n - 1" by simp
  have "QDollar_resample points n = Some (Inr np, pts')"
    unfolding QDollar_resample_def Let_def I
    by (subst (1 2) pts, simp only: list.case One_nat_def r(1) option.case prod.case ne if_False)
  then show ?thesis using len r(3,4) by blast
qed

section \<open>check and add on the store\<close>

lemma distanceAtBestAngle_total:
  "\<exists>res. distanceAtBestAngle points T (- AngleRange) AngleRange AnglePrecision = Some res"
proof (cases "length points \<le> length (Points T)")
  case True
  from distanceAtBestAngle_returns [OF True, of 2 "- 45" 45]
  show ?thesis by (auto simp: AngleRange_vals)
next
  case False
  then show ?thesis by (simp add: distanceAtBestAngle_throws)
qed

lemma OneDollar_check_loop_total:
  "\<exists>res. OneDollar_check_loop points Ts i b t = Some res"
proof (induction Ts arbitrary: i b t)
  case Nil
  then show ?case by simp
next
  case (Cons T Ts)
  obtain res where "distanceAtBestAngle points T (- AngleRange) AngleRange AnglePrecision = Some res"
    using distanceAtBestAngle_total by blast
  then show ?case
    using Cons.IH by (cases res) (auto split: if_splits)
qed

lemma OneDollar_normalize_resample:
  "OneDollar_normalize ps = Some (out, ps') \<Longrightarrow>
   \<exists>out'. OneDollar_resample ps NumPoints = Some (out', ps')"
  by (auto simp: OneDollar_normalize_def split: option.splits sum.splits prod.splits)

lemma QDollar_normalize_resample:
  "QDollar_normalize ps = Some (out, ps') \<Longrightarrow>
   \<exists>out'. QDollar_resample ps NumPoints = Some (out', ps')"
  by (auto simp: QDollar_normalize_def split: option.splits sum.splits prod.splits)

lemma OneDollar_check_points_resample:
  "OneDollar_check_points Templates ps = Some (res, ps') \<Longrightarrow>
   \<exists>out. OneDollar_resample ps NumPoints = Some (out, ps')"
  by (auto simp: OneDollar_check_points_def Let_def dest!: OneDollar_normalize_resample
      split: option.splits sum.splits prod.splits if_splits)

lemma OneDollar_add_points_resample:
  "OneDollar_add_points Templates n ps = Some (res, ps') \<Longrightarrow>
   \<exists>out. OneDollar_resample ps NumPoints = Some (out, ps')"
  by (auto simp: OneDollar_add_points_def dest!: OneDollar_normalize_resample
      split: option.splits sum.splits prod.splits)

lemma QDollar_check_points_resample:
  "QDollar_check_points Templates ps = Some (res, ps') \<Longrightarrow>
   \<exists>out. QDollar_resample ps NumPoints = Some (out, ps')"
  by (auto simp: QDollar_check_points_def dest!: QDollar_normalize_resample
      split: option.splits sum.splits prod.splits)

lemma QDollar_add_points_resample:
  "QDollar_add_points Templates n ps = Some (res, ps') \<Longrightarrow>
   \<exists>out. QDollar_resample ps NumPoints = Some (out, ps')"
  by (auto simp: QDollar_add_points_def dest!: QDollar_normalize_resample
      split: option.splits sum.splits prod.splits)

lemma OneDollar_normalize_grows:
  assumes "finite_points ps" "Fin 0 < OneDollar_pathLength ps"
  shows "\<exists>out ps'. OneDollar_normalize ps = Some (out, ps') \<and> length ps' = length ps + 63"
proof -
  have "0 < rpath ps" using assms by (simp add: OneDollar_pathLength_finite)
  from OneDollar_resample_count [OF assms(1) this, of NumPoints]
  obtain np ps' where "OneDollar_resample ps NumPoints = Some (Inr np, ps')"
    "length ps' = length ps + 63"
    by (auto simp: NumPoints_def)
  then show ?thesis
    by (auto simp: OneDollar_normalize_def split: sum.splits)
qed

lemma QDollar_normalize_grows:
  assumes "finite_points ps" "Fin 0 < QDollar_pathLength ps"
  shows "\<exists>out ps'. QDollar_normalize ps = Some (out, ps') \<and> length ps' = length ps + 63"
proof -
  have "0 < qpath ps" using assms by (simp add: QDollar_pathLength_finite)
  from QDollar_resample_count [OF assms(1) this, of NumPoints]
  obtain np ps' where "QDollar_resample ps NumPoints = Some (Inr np, ps')"
    "length ps' = length ps + 63"
    by (auto simp: NumPoints_def)
  then show ?thesis
    by (auto simp: QDollar_normalize_def)
qed

lemma OneDollar_normalize_returns:
  assumes "finite_points ps" "Fin 0 < OneDollar_pathLength ps"
  shows "\<exists>c ps'. OneDollar_normalize ps = Some (Inr c, ps')"
proof -
  have "0 < rpath ps" using assms by (simp add: OneDollar_pathLength_finite)
  from OneDollar_resample_count [OF assms(1) this, of NumPoints]
  obtain np ps' where r: "OneDollar_resample ps NumPoints = Some (Inr np, ps')"
    "length np = NumPoints"
    by (auto simp: NumPoints_def)
  then obtain p0 rest where "np = p0 # rest"
    by (cases np) (auto simp: NumPoints_def)
  then show ?thesis
    using r(1) by (simp add: OneDollar_normalize_def indicativeAngle_def Let_def)
qed

lemma QDollar_normalize_returns:
  assumes "finite_points ps" "Fin 0 < QDollar_pathLength ps"
  shows "\<exists>c ps'. QDollar_normalize ps = Some (Inr c, ps')"
proof -
  have "0 < qpath ps" using assms by (simp add: QDollar_pathLength_finite)
  from QDollar_resample_count [OF assms(1) this, of NumPoints]
  obtain np ps' where "QDollar_resample ps NumPoints = Some (Inr np, ps')"
    by (auto simp: NumPoints_def)
  then show ?thesis
    by (simp add: QDollar_normalize_def)
qed

lemma OneDollar_check_points_grows:
  assumes "finite_points ps" "Fin 0 < OneDollar_pathLength ps"
  shows "\<exists>res ps'. OneDollar_check_points Templates ps = Some (res, ps')
     \<and> length ps' = length ps + 63"
proof -
  obtain out ps' where n: "OneDollar_normalize ps = Some (out, ps')" "length ps' = length ps + 63"
    using OneDollar_normalize_grows [OF assms] by blast
  show ?thesis
  proof (cases out)
    case (Inl e)
    then show ?thesis using n by (simp add: OneDollar_check_points_def)
  next
    case (Inr c)
    obtain r where "OneDollar_check_loop c Templates 0 PInf 0 = Some r"
      using OneDollar_check_loop_total by blast
    then show ?thesis
      using n Inr by (cases r) (auto simp: OneDollar_check_points_def Let_def)
  qed
qed

lemma OneDollar_add_points_grows:
  assumes "finite_points ps" "Fin 0 < OneDollar_pathLength ps"
  shows "\<exists>res ps'. OneDollar_add_points Templates n ps = Some (res, ps')
     \<and> length ps' = length ps + 63"
  using OneDollar_normalize_grows [OF assms]
  by (auto simp: OneDollar_add_points_def split: sum.splits)

lemma QDollar_check_points_grows:
  assumes "finite_points ps" "Fin 0 < QDollar_pathLength ps"
  shows "\<exists>res ps'. QDollar_check_points Templates ps = Some (res, ps')
     \<and> length ps' = length ps + 63"
  using QDollar_normalize_grows [OF assms]
  by (auto simp: QDollar_check_points_def split: sum.splits)

lemma QDollar_add_points_grows:
  assumes "finite_points ps" "Fin 0 < QDollar_pathLength ps"
  shows "\<exists>res ps'. QDollar_add_points Templates n ps = Some (res, ps')
     \<and> length ps' = length ps + 63"
  using QDollar_normalize_grows [OF assms]
  by (auto simp: QDollar_add_points_def split: sum.splits)

text \<open>The operations on the store, by the representation of the caller's array.\<close>

lemma on_records:
  assumes "cells h r = Some (Records ps)"
  shows "OneDollar_check Templates h r =
      map_option (\<lambda>(res, ps'). (res, h\<lparr>cells := (cells h)(r \<mapsto> Records ps')\<rparr>))
        (OneDollar_check_points Templates ps)"
    and "OneDollar_add Templates h n r =
      map_option (\<lambda>(res, ps'). (res, h\<lparr>cells := (cells h)(r \<mapsto> Records ps')\<rparr>))
        (OneDollar_add_points Templates n ps)"
  using assms
  by (auto simp: OneDollar_check_def OneDollar_add_def OneDollar_convertPoints_def points_of_def
      store_points_def split: option.splits)

lemma on_qrecords:
  assumes "cells h r = Some (Records ps)"
  shows "QDollar_check Templates h r =
      map_option (\<lambda>(res, ps'). (res, h\<lparr>cells := (cells h)(r \<mapsto> Records ps')\<rparr>))
        (QDollar_check_points Templates ps)"
    and "QDollar_add Templates h n r =
      map_option (\<lambda>(res, ps'). (res, h\<lparr>cells := (cells h)(r \<mapsto> Records ps')\<rparr>))
        (QDollar_add_points Templates n ps)"
  using assms
  by (auto simp: QDollar_check_def QDollar_add_def QDollar_convertPoints_def points_of_def
      store_points_def split: option.splits)

lemma on_pairs:
  assumes "cells h r = Some (Pairs pairs)" "r \<noteq> fresh h"
  shows "OneDollar_check Templates h r = Some (res, h') \<Longrightarrow> cells h' r = Some (Pairs pairs)"
    and "OneDollar_add Templates h n r = Some (res', h') \<Longrightarrow> cells h' r = Some (Pairs pairs)"
  using assms
  by (cases pairs; auto simp: OneDollar_check_def OneDollar_add_def OneDollar_convertPoints_def
      points_of_def store_points_def split: option.splits)+

lemma on_qpairs:
  assumes "cells h r = Some (Pairs pairs)" "r \<noteq> fresh h"
  shows "QDollar_check Templates h r = Some (res, h') \<Longrightarrow> cells h' r = Some (Pairs pairs)"
    and "QDollar_add Templates h n r = Some (res', h') \<Longrightarrow> cells h' r = Some (Pairs pairs)"
  using assms
  by (cases pairs; auto simp: QDollar_check_def QDollar_add_def QDollar_convertPoints_def
      points_of_def store_points_def split: option.splits)+

lemma on_pairs_returns:
  assumes "cells h r = Some (Pairs (p # pairs))"
    and "finite_points (map (\<lambda>(a, b). \<lparr>x = a, y = b\<rparr>) (p # pairs))"
    and "Fin 0 < OneDollar_pathLength (map (\<lambda>(a, b). \<lparr>x = a, y = b\<rparr>) (p # pairs))"
  shows "\<exists>res h'. OneDollar_check Templates h r = Some (res, h')"
    and "\<exists>res h'. OneDollar_add Templates h n r = Some (res, h')"
proof -
  obtain res ps' where
    "OneDollar_check_points Templates (map (\<lambda>(a, b). \<lparr>x = a, y = b\<rparr>) (p # pairs)) = Some (res, ps')"
    using OneDollar_check_points_grows [OF assms(2,3)] by blast
  then show "\<exists>res h'. OneDollar_check Templates h r = Some (res, h')"
    using assms(1)
    by (simp add: OneDollar_check_def OneDollar_convertPoints_def points_of_def)
  obtain res ps' where
    "OneDollar_add_points Templates n (map (\<lambda>(a, b). \<lparr>x = a, y = b\<rparr>) (p # pairs)) = Some (res, ps')"
    using OneDollar_add_points_grows [OF assms(2,3)] by blast
  then show "\<exists>res h'. OneDollar_add Templates h n r = Some (res, h')"
    using assms(1)
    by (simp add: OneDollar_add_def OneDollar_convertPoints_def points_of_def)
qed

lemma on_qpairs_returns:
  assumes "cells h r = Some (Pairs (p # pairs))"
    and "finite_points (map (\<lambda>(a, b). \<lparr>x = a, y = b, id' = Some 1\<rparr>) (p # pairs))"
    and "Fin 0 < QDollar_pathLength (map (\<lambda>(a, b). \<lparr>x = a, y = b, id' = Some 1\<rparr>) (p # pairs))"
  shows "\<exists>res h'. QDollar_check Templates h r = Some (res, h')"
    and "\<exists>res h'. QDollar_add Templates h n r = Some (res, h')"
proof -
  obtain res ps' where
    "QDollar_check_points Templates (map (\<lambda>(a, b). \<lparr>x = a, y = b, id' = Some 1\<rparr>) (p # pairs))
       = Some (res, ps')"
    using QDollar_check_points_grows [OF assms(2,3)] by blast
  then show "\<exists>res h'. QDollar_check Templates h r = Some (res, h')"
    using assms(1)
    by (simp add: QDollar_check_def QDollar_convertPoints_def points_of_def)
  obtain res ps' where
    "QDollar_add_points Templates n (map (\<lambda>(a, b). \<lparr>x = a, y = b, id' = Some 1\<rparr>) (p # pairs))
       = Some (res, ps')"
    using QDollar_add_points_grows [OF assms(2,3)] by blast
  then show "\<exists>res h'. QDollar_add Templates h n r = Some (res, h')"
    using assms(1)
    by (simp add: QDollar_add_def QDollar_convertPoints_def points_of_def)
qed

lemma example_strokes:
  "finite_points example_stroke" "Fin 0 < OneDollar_pathLength example_stroke"
  "finite_points example_qstroke" "Fin 0 < QDollar_pathLength example_qstroke"
  "finite_points (map (\<lambda>(a, b). \<lparr>x = a, y = b\<rparr>) example_pairs)"
  "Fin 0 < OneDollar_pathLength (map (\<lambda>(a, b). \<lparr>x = a, y = b\<rparr>) example_pairs)"
  "finite_points (map (\<lambda>(a, b). \<lparr>x = a, y = b, id' = Some 1\<rparr>) example_pairs)"
  "Fin 0 < QDollar_pathLength (map (\<lambda>(a, b). \<lparr>x = a, y = b, id' = Some 1\<rparr>) example_pairs)"
proof -
  show 1: "finite_points example_stroke"
    and 2: "finite_points example_qstroke"
    and 3: "finite_points (map (\<lambda>(a, b). \<lparr>x = a, y = b\<rparr>) example_pairs)"
    and 4: "finite_points (map (\<lambda>(a, b). \<lparr>x = a, y = b, id' = Some 1\<rparr>) example_pairs)"
    by (simp_all add: example_stroke_def example_qstroke_def example_pairs_def
        finite_points_def finite_point_def)
  show "Fin 0 < OneDollar_pathLength example_stroke"
    unfolding OneDollar_pathLength_finite [OF 1]
    by (simp add: example_stroke_def rdist_def)
  show "Fin 0 < QDollar_pathLength example_qstroke"
    unfolding QDollar_pathLength_finite [OF 2]
    by (simp add: example_qstroke_def rdist_def)
  show "Fin 0 < OneDollar_pathLength (map (\<lambda>(a, b). \<lparr>x = a, y = b\<rparr>) example_pairs)"
    unfolding OneDollar_pathLength_finite [OF 3]
    by (simp add: example_pairs_def rdist_def)
  show "Fin 0 < QDollar_pathLength (map (\<lambda>(a, b). \<lparr>x = a, y = b, id' = Some 1\<rparr>) example_pairs)"
    unfolding QDollar_pathLength_finite [OF 4]
    by (simp add: example_pairs_def rdist_def)
qed

section \<open>check on a stroke of positive length\<close>

lemma normalize_lengths [simp]:
  "length (OneDollar_scaleTo points s) = length points"
  "length (OneDollar_translateTo points pt) = length points"
  "length (QDollar_scale qpoints) = length qpoints"
  "length (QDollar_translateTo qpoints pt) = length qpoints"
  by (simp_all add: OneDollar_scaleTo_def OneDollar_translateTo_def QDollar_scale_def
      QDollar_translateTo_def Let_def split: prod.splits)

lemma OneDollar_normalize_length:
  assumes "finite_points ps" "Fin 0 < OneDollar_pathLength ps"
  shows "\<exists>c ps'. OneDollar_normalize ps = Some (Inr c, ps') \<and> length c = NumPoints"
proof -
  have "0 < rpath ps" using assms by (simp add: OneDollar_pathLength_finite)
  from OneDollar_resample_count [OF assms(1) this, of NumPoints]
  obtain np ps' where r: "OneDollar_resample ps NumPoints = Some (Inr np, ps')"
    "length np = NumPoints"
    by (auto simp: NumPoints_def)
  then obtain p0 rest where "np = p0 # rest"
    by (cases np) (auto simp: NumPoints_def)
  then show ?thesis
    using r by (simp add: OneDollar_normalize_def indicativeAngle_def Let_def)
qed

lemma QDollar_normalize_length:
  assumes "finite_points ps" "Fin 0 < QDollar_pathLength ps"
  shows "\<exists>c ps'. QDollar_normalize ps = Some (Inr c, ps') \<and> length c = NumPoints"
proof -
  have "0 < qpath ps" using assms by (simp add: QDollar_pathLength_finite)
  from QDollar_resample_count [OF assms(1) this, of NumPoints]
  obtain np ps' where "QDollar_resample ps NumPoints = Some (Inr np, ps')"
    "length np = NumPoints"
    by (auto simp: NumPoints_def)
  then show ?thesis
    by (simp add: QDollar_normalize_def)
qed

lemma OneDollar_check_loop_returns:
  assumes "\<forall>T\<in>set Ts. length points \<le> length (Points T)" "t < i \<or> (t = 0 \<and> i = 0)"
  shows "\<exists>b' t'. OneDollar_check_loop points Ts i b t = Some (Inr (b', t'))
     \<and> (t' < i + length Ts \<or> (Ts = [] \<and> t' = t))"
  using assms
proof (induction Ts arbitrary: i b t)
  case Nil
  then show ?case by simp
next
  case (Cons T Ts)
  have len: "length points \<le> length (Points T)" using Cons.prems(1) by simp
  obtain d where d: "distanceAtBestAngle points T (- AngleRange) AngleRange AnglePrecision
      = Some (Inr d)"
    using distanceAtBestAngle_returns [OF len, of 2 "- 45" 45] by (auto simp: AngleRange_vals)
  have rest: "\<forall>T\<in>set Ts. length points \<le> length (Points T)" using Cons.prems(1) by simp
  show ?case
  proof (cases "d < b")
    case True
    obtain b' t' where "OneDollar_check_loop points Ts (i + 1) d i = Some (Inr (b', t'))"
      "t' < i + 1 + length Ts \<or> (Ts = [] \<and> t' = i)"
      using Cons.IH [OF rest, of i "i + 1" d] by auto
    then show ?thesis using d True by auto
  next
    case False
    have "t < i + 1 \<or> (t = 0 \<and> i + 1 = 0)" using Cons.prems(2) by auto
    then obtain b' t' where "OneDollar_check_loop points Ts (i + 1) b t = Some (Inr (b', t'))"
      "t' < i + 1 + length Ts \<or> (Ts = [] \<and> t' = t)"
      using Cons.IH [OF rest, of t "i + 1" b] by auto
    then show ?thesis using d False Cons.prems(2) by auto
  qed
qed

lemma OneDollar_check_points_returns:
  assumes "finite_points ps" "Fin 0 < OneDollar_pathLength ps" "Templates \<noteq> []"
    and "\<forall>T\<in>set Templates. NumPoints \<le> length (Points T)"
  shows "\<exists>res ps'. OneDollar_check_points Templates ps = Some (Inr res, ps')"
proof -
  obtain c ps' where c: "OneDollar_normalize ps = Some (Inr c, ps')" "length c = NumPoints"
    using OneDollar_normalize_length [OF assms(1,2)] by blast
  obtain b t where "OneDollar_check_loop c Templates 0 PInf 0 = Some (Inr (b, t))"
    "t < 0 + length Templates \<or> (Templates = [] \<and> t = 0)"
    using OneDollar_check_loop_returns [of Templates c 0 0 PInf] assms(4) c(2) by auto
  then show ?thesis
    using c(1) assms(3) by (simp add: OneDollar_check_points_def Let_def)
qed

lemma QDollar_check_loop_returns:
  assumes "\<forall>T\<in>set Ts. length points \<le> length (Points T)"
  shows "\<exists>r. QDollar_check_loop points Ts b best = Inr r"
  using assms
proof (induction Ts arbitrary: b best)
  case Nil
  then show ?case by simp
next
  case (Cons T Ts)
  then show ?case
    by (auto simp: cloudMatch_def cloudDistance_def Let_def)
qed

lemma QDollar_check_points_returns:
  assumes "finite_points ps" "Fin 0 < QDollar_pathLength ps"
    and "\<forall>T\<in>set Templates. NumPoints \<le> length (Points T)"
  shows "\<exists>res ps'. QDollar_check_points Templates ps = Some (Inr res, ps')"
proof -
  obtain c ps' where c: "QDollar_normalize ps = Some (Inr c, ps')" "length c = NumPoints"
    using QDollar_normalize_length [OF assms(1,2)] by blast
  have "\<forall>T\<in>set Templates. length c \<le> length (Points T)"
    using assms(3) c(2) by simp
  from QDollar_check_loop_returns [OF this, of PInf None]
  obtain r where "QDollar_check_loop c Templates PInf None = Inr r" by blast
  then show ?thesis
    using c(1) by (cases r) (simp add: QDollar_check_points_def)
qed

lemma example_checks:
  "\<exists>res ps'. OneDollar_check_points example_store64 example_stroke = Some (Inr res, ps')"
  "\<exists>res ps'. QDollar_check_points example_qstore64 example_qstroke = Some (Inr res, ps')"
  using OneDollar_check_points_returns [OF example_strokes(1,2), of example_store64]
    QDollar_check_points_returns [OF example_strokes(3,4), of example_qstore64]
  by (simp_all add: example_store64_def example_qstore64_def NumPoints_def)

section \<open>Claims\<close>



text \<open>
  C2. For an input of two or more coinciding finite points (path length
  zero) and a non-empty store whose templates have at least two points each,
  \<open>check\<close> of the angle-search recogniser does not fail: \<open>_resample\<close> divides zero
  by zero, returns the first point followed by one point of \<open>NaN\<close> coordinates and
  leaves that point spliced into the input array; every distance is then \<open>NaN\<close>,
  and \<open>check\<close> returns the name of the first template with the score 0.
\<close>

theorem coincident_points_return_first_template:
  assumes "finite_point p" "2 \<le> m" "Templates \<noteq> []"
    and "\<forall>T\<in>set Templates. 2 \<le> length (Points T)"
  shows "OneDollar_pathLength (replicate m p) = Fin 0
    \<and> OneDollar_resample (replicate m p) NumPoints =
        Some (Inr [p, NaN_point], p # NaN_point # replicate (m - 1) p)
    \<and> OneDollar_check_points Templates (replicate m p) =
        Some (Inr \<lparr>name = Name (Templates ! 0), score = Fin 0\<rparr>,
              p # NaN_point # replicate (m - 1) p)"
  using OneDollar_pathLength_replicate [OF assms(1)] OneDollar_resample_replicate [OF assms(1,2)]
    OneDollar_check_degenerate [OF assms]
  by simp

theorem coincident_points_return_first_template_witness:
  "finite_point example_point \<and> (2::nat) \<le> 30 \<and> example_store \<noteq> []
   \<and> list_all (\<lambda>T. 2 \<le> length (Points T)) example_store
   \<and> OneDollar_pathLength (replicate 30 example_point) = Fin 0
   \<and> OneDollar_resample (replicate 30 example_point) NumPoints =
        Some (Inr [example_point, NaN_point], example_point # NaN_point # replicate 29 example_point)
   \<and> OneDollar_check_points example_store (replicate 30 example_point) =
        Some (Inr \<lparr>name = ''Line'', score = Fin 0\<rparr>,
              example_point # NaN_point # replicate 29 example_point)"
proof -
  have 1: "finite_point example_point" and 2: "(2::nat) \<le> 30" and 3: "example_store \<noteq> []"
    and 4: "\<forall>T\<in>set example_store. 2 \<le> length (Points T)"
    by (simp_all add: example_point_def example_store_def finite_point_def)
  from coincident_points_return_first_template [OF 1 2 3 4] 1 2 3 4
  show ?thesis by (simp add: example_store_def list_all_iff)
qed

theorem coincident_points_counterexample:
  "OneDollar_pathLength (replicate 30 \<lparr>x = Fin 3, y = Fin 4\<rparr>) = Fin 0
   \<and> OneDollar_check_points
       [\<lparr>Name = ''Triangle'',
         Points = [\<lparr>x = Fin 0, y = Fin 0\<rparr>, \<lparr>x = Fin 1, y = Fin 1\<rparr>], Vector = []\<rparr>]
       (replicate 30 \<lparr>x = Fin 3, y = Fin 4\<rparr>) =
     Some (Inr \<lparr>name = ''Triangle'', score = Fin 0\<rparr>,
           \<lparr>x = Fin 3, y = Fin 4\<rparr> # \<lparr>x = NaN, y = NaN\<rparr> # replicate 29 \<lparr>x = Fin 3, y = Fin 4\<rparr>)"
proof -
  have 1: "finite_point \<lparr>x = Fin 3, y = Fin 4\<rparr>" by (simp add: finite_point_def)
  show ?thesis
    using OneDollar_pathLength_replicate [OF 1, of 30]
      OneDollar_check_degenerate [OF 1, of 30
        "[\<lparr>Name = ''Triangle'',
          Points = [\<lparr>x = Fin 0, y = Fin 0\<rparr>, \<lparr>x = Fin 1, y = Fin 1\<rparr>], Vector = []\<rparr>]"]
    by (simp add: NaN_point_def)
qed

text \<open>
  C3. For every candidate and every template store, \<open>check\<close> with the early
  return of \<open>_cloudDistance\<close> selects the template, and returns the result, that
  \<open>check\<close> on the full greedy match selects and returns: the loop over the
  templates ends with the same minimum distance and the same best template.
\<close>

theorem pruning_preserves_check:
  "QDollar_check_loop processedPoints Templates PInf None =
     QDollar_check_unpruned_loop processedPoints Templates PInf None
   \<and> QDollar_check_points Templates points = QDollar_check_unpruned Templates points"
  unfolding QDollar_check_points_def QDollar_check_unpruned_def QDollar_check_loop_unpruned
  by simp

theorem pruning_preserves_check_witness:
  "QDollar_check_points
     [\<lparr>Name = ''Line'', Points = [\<lparr>x = Fin 0, y = Fin 0, id' = Some 1\<rparr>], LUT = []\<rparr>]
     [\<lparr>x = Fin 1, y = Fin 2, id' = Some 1\<rparr>, \<lparr>x = Fin 4, y = Fin 6, id' = Some 1\<rparr>] =
   QDollar_check_unpruned
     [\<lparr>Name = ''Line'', Points = [\<lparr>x = Fin 0, y = Fin 0, id' = Some 1\<rparr>], LUT = []\<rparr>]
     [\<lparr>x = Fin 1, y = Fin 2, id' = Some 1\<rparr>, \<lparr>x = Fin 4, y = Fin 6, id' = Some 1\<rparr>]"
  using pruning_preserves_check by blast

text \<open>
  C4. With an empty template store, \<open>check\<close> of the cloud recogniser returns
  \<open>No match\<close> with the score 0 whenever the normalisation of the input returns;
  \<open>check\<close> of the angle-search recogniser never returns a result: it reads
  \<open>this.Templates[0].Name\<close> and throws a \<open>TypeError\<close>.
\<close>

theorem empty_store_throws_or_no_match:
  "OneDollar_check_points [] points1 \<noteq> Some (Inr res1, m1)
   \<and> (OneDollar_normalize points1 = Some (Inr c1, m1) \<longrightarrow>
        OneDollar_check_points [] points1 = Some (Inl TypeError, m1))
   \<and> (QDollar_normalize pointsq = Some (Inr cq, mq) \<longrightarrow>
        QDollar_check_points [] pointsq =
          Some (Inr \<lparr>name = ''No match'', score = Fin 0\<rparr>, mq))"
  by (auto simp: OneDollar_check_points_def QDollar_check_points_def Let_def
      split: option.splits sum.splits)

theorem empty_store_throws_or_no_match_witness:
  "(\<exists>c m. OneDollar_normalize example_stroke = Some (Inr c, m)
      \<and> OneDollar_check_points [] example_stroke = Some (Inl TypeError, m))
   \<and> (\<exists>c m. QDollar_normalize example_qstroke = Some (Inr c, m)
      \<and> QDollar_check_points [] example_qstroke =
          Some (Inr \<lparr>name = ''No match'', score = Fin 0\<rparr>, m))"
proof -
  obtain c1 m1 where 1: "OneDollar_normalize example_stroke = Some (Inr c1, m1)"
    using OneDollar_normalize_returns [OF example_strokes(1,2)] by blast
  obtain cq mq where 2: "QDollar_normalize example_qstroke = Some (Inr cq, mq)"
    using QDollar_normalize_returns [OF example_strokes(3,4)] by blast
  from empty_store_throws_or_no_match [of example_stroke _ m1 c1 example_qstroke cq mq] 1 2
  show ?thesis by blast
qed








text \<open>
  C8. Whenever \<open>check\<close> returns a result, its score is at least zero (so it is
  not \<open>NaN\<close> either), in the angle-search and in the cloud recogniser, whatever
  the input.
\<close>

theorem score_never_negative:
  "(OneDollar_check_points Templates1 points1 = Some (Inr res1, m1) \<longrightarrow> Fin 0 \<le> score res1)
   \<and> (QDollar_check_points Templatesq pointsq = Some (Inr resq, mq) \<longrightarrow> Fin 0 \<le> score resq)"
proof (intro conjI impI)
  assume "OneDollar_check_points Templates1 points1 = Some (Inr res1, m1)"
  from OneDollar_check_points_result [OF this] obtain b t r' ds where
    r: "res1 = \<lparr>name = Name (Templates1 ! t), score = Math_max (Fin 1 - b / HalfDiagonal) (Fin 0)\<rparr>"
    "scan_inv ds b r'"
    by blast
  obtain h where h: "0 < h" "HalfDiagonal = Fin h" using HalfDiagonal_pos by blast
  have "b \<noteq> NaN" using r(2) by (simp add: scan_inv_def)
  then show "Fin 0 \<le> score res1"
    using score_not_negative [OF _ h(1)] by (simp add: r(1) h(2))
next
  assume "QDollar_check_points Templatesq pointsq = Some (Inr resq, mq)"
  from QDollar_check_points_result [OF this] obtain b ds r' where
    r: "resq = (case r' of None \<Rightarrow> \<lparr>name = ''No match'', score = Fin 0\<rparr>
              | Some t \<Rightarrow> \<lparr>name = Name (Templatesq ! t),
                   score = Math_max (Fin 1 - (b / Fin (real NumPoints)) / Fin 0.5) (Fin 0)\<rparr>)"
    "scan_inv ds b r'"
    by blast
  have "b \<noteq> NaN" using r(2) by (simp add: scan_inv_def)
  then show "Fin 0 \<le> score resq"
    using cloud_score_not_negative [of b "0.5" "real NumPoints"]
    by (cases r') (simp_all add: r(1) NumPoints_def)
qed

theorem score_never_negative_witness:
  "(\<exists>res m. OneDollar_check_points example_store64 example_stroke = Some (Inr res, m)
      \<and> Fin 0 \<le> score res)
   \<and> (\<exists>res m. QDollar_check_points example_qstore64 example_qstroke = Some (Inr res, m)
      \<and> Fin 0 \<le> score res)
   \<and> OneDollar_check_points example_store (replicate 2 example_point) =
       Some (Inr \<lparr>name = ''Line'', score = Fin 0\<rparr>,
             example_point # NaN_point # replicate 1 example_point)
   \<and> Fin 0 \<le> score \<lparr>name = ''Line'', score = Fin 0\<rparr>
   \<and> QDollar_check_points example_qstore [example_qpoint] =
       Some (Inr \<lparr>name = ''Dot'', score = Fin 1\<rparr>, [example_qpoint])
   \<and> Fin 0 \<le> score \<lparr>name = ''Dot'', score = Fin 1\<rparr>"
proof -
  obtain res1 m1 resq mq where
    1: "OneDollar_check_points example_store64 example_stroke = Some (Inr res1, m1)"
    and 2: "QDollar_check_points example_qstore64 example_qstroke = Some (Inr resq, mq)"
    using example_checks by blast
  from score_never_negative [of example_store64 example_stroke res1 m1
      example_qstore64 example_qstroke resq mq] 1 2
    score_never_negative [of example_store "replicate 2 example_point"
      "\<lparr>name = ''Line'', score = Fin 0\<rparr>" "example_point # NaN_point # replicate 1 example_point"
      example_qstore "[example_qpoint]" "\<lparr>name = ''Dot'', score = Fin 1\<rparr>" "[example_qpoint]"]
    example_check example_qcheck
  show ?thesis by blast
qed





end
